theory Spec2Isabelle
  imports Main "HOL-Library.Word" "HOL-Library.List_Lexorder" "HOL-Library.Multiset"
begin

section \<open>The lexicographic byte-buffer shrinker (hypothesis, shrinking/lexical.py)\<close>

text \<open>
  A shallow embedding of the class \<open>Lexical\<close> of
  \<open>hypothesis/internal/conjecture/shrinking/lexical.py\<close>. A buffer (\<open>hbytes\<close>) is a
  list of 8-bit words; Python compares \<open>bytes\<close> lexicographically, a proper prefix being
  smaller, which is the order of \<open>HOL-Library.List_Lexorder\<close>. The shrinker object is a
  record; a method is a function from the state to a result and the new state, and a
  raised exception is the result \<open>Inl\<close> together with the state at the point of the raise.
\<close>

subsection \<open>Data\<close>

type_synonym byte = "8 word"

type_synonym buffer = "byte list"

datatype error = AssertionError | UnboundLocalError | ValueError | OverflowError

text \<open>
  The fields of the shrinker object that the methods read or write: \<open>current\<close>,
  \<open>changes\<close> and \<open>full\<close> are attributes used by lexical.py; \<open>probeCache\<close> is the
  spec's cache of probed buffers with their outcome, newest first, one entry per evaluation
  of the predicate, so it is also the log of the predicate's invocations.
\<close>

record state =
  current :: buffer
  changes :: nat
  probeCache :: "(buffer \<times> bool) list"
  full :: bool

type_synonym 'a shrink = "state \<Rightarrow> (error + 'a) \<times> state"

text \<open>Sequencing of two statements: an exception of the first skips the second.\<close>

definition then_do :: "'a shrink \<Rightarrow> ('a \<Rightarrow> 'b shrink) \<Rightarrow> 'b shrink" where
  "then_do m f s = (case m s of (Inl e, s') \<Rightarrow> (Inl e, s') | (Inr x, s') \<Rightarrow> f x s')"

text \<open>
  An external collaborator (the Integer shrinker, the Ordering shrinker) sees the shrinker
  only through the acceptance function it is handed: it proposes a candidate, reads the
  boolean answer, and goes on or returns. For a fixed initial value, random source and
  mode it is therefore a finite decision tree: \<open>Try c yes no\<close> proposes \<open>c\<close> and continues
  with \<open>yes\<close> when the candidate was accepted and with \<open>no\<close> otherwise.
\<close>

datatype 'c collab = Done | Try 'c "'c collab" "'c collab"

fun run_collab :: "('c \<Rightarrow> bool shrink) \<Rightarrow> 'c collab \<Rightarrow> unit shrink" where
  "run_collab accept Done s = (Inr (), s)"
| "run_collab accept (Try c yes no) s =
     (case accept c s of
        (Inl e, s') \<Rightarrow> (Inl e, s')
      | (Inr True, s') \<Rightarrow> run_collab accept yes s'
      | (Inr False, s') \<Rightarrow> run_collab accept no s')"

text \<open>
  The collaborators and the float codec are imported by lexical.py from other modules;
  they are parameters of the model: \<open>Integer.shrink\<close> (given the initial value and
  \<open>full\<close>) and \<open>Ordering.shrink\<close> (given the initial sequence) as decision trees,
  and \<open>float_to_lex\<close>, \<open>lex_to_float\<close> and \<open>is_simple\<close>. \<open>'f\<close> is the type of Python
  floats, of which the model only uses what \<open>float_hack\<close> calls: \<open>float('nan')\<close>,
  \<open>float('inf')\<close>, \<open>sys.float_info.max\<close>, \<open>math.isinf\<close>, \<open>math.isnan\<close>, \<open>floor\<close>,
  \<open>ceil\<close>, \<open>f > 2\<close> and \<open>f - 1\<close>.
\<close>

record 'f collaborators =
  Integer_shrink :: "nat \<Rightarrow> bool \<Rightarrow> nat collab"
  Ordering_shrink :: "buffer \<Rightarrow> buffer collab"
  float_to_lex :: "'f \<Rightarrow> nat"
  lex_to_float :: "nat \<Rightarrow> 'f"
  is_simple :: "'f \<Rightarrow> bool"
  float_nan :: 'f
  float_inf :: 'f
  float_max :: 'f
  isinf :: "'f \<Rightarrow> bool"
  isnan :: "'f \<Rightarrow> bool"
  float_floor :: "'f \<Rightarrow> 'f"
  float_ceil :: "'f \<Rightarrow> 'f"
  greater_two :: "'f \<Rightarrow> bool"
  minus_one :: "'f \<Rightarrow> 'f"

subsection \<open>Helpers of lexical.py's imports\<close>

text \<open>
  Modelled from the spec: \<open>int_from_bytes\<close> and \<open>int_to_bytes\<close> of
  \<open>hypothesis.internal.compat\<close> are not in the sources. The spec (4.6) reads the buffer
  as one big-endian unsigned integer and re-encodes a candidate integer into a buffer of
  the same length; Python's \<open>to_bytes\<close> raises OverflowError when the integer does not
  fit.
\<close>

fun int_from_bytes :: "buffer \<Rightarrow> nat" where
  "int_from_bytes [] = 0"
| "int_from_bytes (b # bs) = unat b * 256 ^ length bs + int_from_bytes bs"

fun to_bytes :: "nat \<Rightarrow> nat \<Rightarrow> buffer" where
  "to_bytes i 0 = []"
| "to_bytes i (Suc n) = to_bytes (i div 256) n @ [of_nat (i mod 256)]"

definition int_to_bytes :: "nat \<Rightarrow> nat \<Rightarrow> error + buffer" where
  "int_to_bytes i n = (if i < 256 ^ n then Inr (to_bytes i n) else Inl OverflowError)"

text \<open>Python's \<open>int.bit_length\<close> on a non-negative integer.\<close>

fun bit_length :: "nat \<Rightarrow> nat" where
  "bit_length n = (if n = 0 then 0 else Suc (bit_length (n div 2)))"

declare bit_length.simps [simp del]

subsection \<open>The methods of \<open>Lexical\<close> that the probe protocol calls\<close>

text \<open>
  The property \<open>size\<close> (here \<open>size_of\<close>), \<open>check_invariants\<close> and \<open>left_is_better\<close>.
  \<open>make_immutable\<close> is \<open>hbytes(value)\<close>, the identity on a buffer.
\<close>

definition size_of :: "state \<Rightarrow> nat" where
  "size_of s = length (current s)"

definition check_invariants :: "buffer \<Rightarrow> unit shrink" where
  "check_invariants v s = (if length v = size_of s then (Inr (), s) else (Inl AssertionError, s))"

definition left_is_better :: "buffer \<Rightarrow> buffer \<Rightarrow> bool" where
  "left_is_better left right = (left < right)"

subsection \<open>The probe protocol\<close>

definition cached_failing :: "state \<Rightarrow> buffer \<Rightarrow> bool" where
  "cached_failing s c = ((c, False) \<in> set (probeCache s))"

text \<open>
  Modelled from the spec: \<open>Shrinker.incorporate\<close> of shrinking/common.py is not in the
  sources; it is the spec's \<open>try\<close> (4.1). A candidate of the wrong length fails the
  assertion of \<open>check_invariants\<close>. A candidate that equals \<open>current\<close>, is not strictly
  smaller than it (\<open>left_is_better\<close>), or is cached as failing is rejected without a call
  of the predicate. Otherwise the predicate is called once and the outcome is cached; on
  success the candidate becomes \<open>current\<close> and \<open>changes\<close> is incremented.
\<close>

definition incorporate :: "(buffer \<Rightarrow> bool) \<Rightarrow> buffer \<Rightarrow> bool shrink" where
  "incorporate p c =
     then_do (check_invariants c) (\<lambda>u s.
       if c = current s then (Inr False, s)
       else if \<not> left_is_better c (current s) then (Inr False, s)
       else if cached_failing s c then (Inr False, s)
       else if p c
         then (Inr True, s\<lparr>current := c, changes := Suc (changes s),
                           probeCache := (c, True) # probeCache s\<rparr>)
         else (Inr False, s\<lparr>probeCache := (c, False) # probeCache s\<rparr>))"

text \<open>
  Modelled from the spec: \<open>Shrinker.consider\<close> of shrinking/common.py is not in the
  sources; it is the spec's \<open>considerEqualOrBetter\<close> (4.1): like \<open>try\<close>, but a candidate
  equal to \<open>current\<close> is accepted, without a change of the state. (The name has a
  suffix because \<open>consider\<close> is a keyword of Isabelle.)
\<close>

definition consider_value :: "(buffer \<Rightarrow> bool) \<Rightarrow> buffer \<Rightarrow> bool shrink" where
  "consider_value p c s = (if c = current s then (Inr True, s) else incorporate p c s)"

subsection \<open>The heuristics of lexical.py\<close>

text \<open>
  \<open>shift\<close>: the inner loop \<open>for k in hrange(c.bit_length(), 0, -1)\<close> over one byte.
  \<open>block\<close> is the bytearray copied from \<open>current\<close> before the loop, whose only cell
  written is \<open>i\<close>.
\<close>

fun shift_byte :: "(buffer \<Rightarrow> bool) \<Rightarrow> buffer \<Rightarrow> nat \<Rightarrow> byte \<Rightarrow> nat \<Rightarrow> unit shrink" where
  "shift_byte p block i c 0 s = (Inr (), s)"
| "shift_byte p block i c (Suc k) s =
     (case incorporate p (block[i := drop_bit (Suc k) c]) s of
        (Inl e, s') \<Rightarrow> (Inl e, s')
      | (Inr True, s') \<Rightarrow> (Inr (), s')
      | (Inr False, s') \<Rightarrow> shift_byte p block i c k s')"

text \<open>One pass \<open>for i in hrange(self.size)\<close>; the indices are those of the range.\<close>

fun shift_pass :: "(buffer \<Rightarrow> bool) \<Rightarrow> nat list \<Rightarrow> unit shrink" where
  "shift_pass p [] s = (Inr (), s)"
| "shift_pass p (i # is) s =
     (let block = current s; c = block ! i in
      case shift_byte p block i c (bit_length (unat c)) s of
        (Inl e, s') \<Rightarrow> (Inl e, s')
      | (Inr u, s') \<Rightarrow> shift_pass p is s')"

text \<open>
  The outer loop \<open>while prev != self.changes\<close>. Nothing in its text bounds the number of
  passes, so the result is an option and \<open>None\<close> stands for a loop that never exits.
\<close>

partial_function (option) shift_while ::
    "(buffer \<Rightarrow> bool) \<Rightarrow> int \<Rightarrow> state \<Rightarrow> ((error + unit) \<times> state) option" where
  "shift_while p prev s =
     (if prev \<noteq> int (changes s)
      then (case shift_pass p [0 ..< size_of s] s of
              (Inl e, s') \<Rightarrow> Some (Inl e, s')
            | (Inr u, s') \<Rightarrow> shift_while p (int (changes s)) s')
      else Some (Inr (), s))"

declare shift_while.simps [code]

definition shift :: "(buffer \<Rightarrow> bool) \<Rightarrow> state \<Rightarrow> ((error + unit) \<times> state) option" where
  "shift p s = shift_while p (- 1) s"

text \<open>
  \<open>rotate_suffixes\<close>. The loop \<open>for significant, c in enumerate(self.current)\<close> leaves
  \<open>significant\<close> at the index of the first nonzero byte, at the last index when no byte
  is nonzero, and unbound when the buffer is empty.
\<close>

fun enumerate_break :: "nat option \<Rightarrow> nat \<Rightarrow> buffer \<Rightarrow> nat option" where
  "enumerate_break bound i [] = bound"
| "enumerate_break bound i (c # cs) =
     (if c \<noteq> 0 then Some i else enumerate_break (Some i) (Suc i) cs)"

fun rotate_loop :: "(buffer \<Rightarrow> bool) \<Rightarrow> nat \<Rightarrow> buffer \<Rightarrow> nat list \<Rightarrow> unit shrink" where
  "rotate_loop p significant prefix [] s = (Inr (), s)"
| "rotate_loop p significant prefix (i # is) s =
     (let left = take i (drop significant (current s));
          right = drop (significant + i) (current s);
          rotated = prefix @ right @ left in
      if rotated < current s
      then (case incorporate p rotated s of
              (Inl e, s') \<Rightarrow> (Inl e, s')
            | (Inr b, s') \<Rightarrow> rotate_loop p significant prefix is s')
      else rotate_loop p significant prefix is s)"

definition rotate_suffixes :: "(buffer \<Rightarrow> bool) \<Rightarrow> unit shrink" where
  "rotate_suffixes p s =
     (case enumerate_break None 0 (current s) of
        None \<Rightarrow> (Inl UnboundLocalError, s)
      | Some significant \<Rightarrow>
          if current s ! significant = 0 then (Inl AssertionError, s)
          else rotate_loop p significant (replicate significant 0)
                 [1 ..< size_of s - significant] s)"

text \<open>
  \<open>shrink_indices\<close>. \<open>prefix\<close> and \<open>suffix\<close> are sliced before the Integer shrinker is
  called; the lambda reads \<open>self.current[i]\<close> at each call. \<open>hbytes([c])\<close> raises
  ValueError for \<open>c\<close> outside \<open>range(256)\<close>.
\<close>

definition shrink_index_accept ::
    "(buffer \<Rightarrow> bool) \<Rightarrow> nat \<Rightarrow> buffer \<Rightarrow> buffer \<Rightarrow> nat \<Rightarrow> bool shrink" where
  "shrink_index_accept p i prefix suffix c s =
     (if unat (current s ! i) = c then (Inr True, s)
      else if 256 \<le> c then (Inl ValueError, s)
      else incorporate p (prefix @ [of_nat c] @ suffix) s)"

fun shrink_indices_loop ::
    "'f collaborators \<Rightarrow> (buffer \<Rightarrow> bool) \<Rightarrow> nat list \<Rightarrow> unit shrink" where
  "shrink_indices_loop env p [] s = (Inr (), s)"
| "shrink_indices_loop env p (i # is) s =
     (let prefix = take i (current s); suffix = drop (i + 1) (current s) in
      case run_collab (shrink_index_accept p i prefix suffix)
             (Integer_shrink env (unat (current s ! i)) False) s of
        (Inl e, s') \<Rightarrow> (Inl e, s')
      | (Inr u, s') \<Rightarrow> shrink_indices_loop env p is s')"

definition shrink_indices :: "'f collaborators \<Rightarrow> (buffer \<Rightarrow> bool) \<Rightarrow> unit shrink" where
  "shrink_indices env p s = shrink_indices_loop env p [0 ..< size_of s] s"

text \<open>The property \<open>current_int\<close>, \<open>incorporate_int\<close> and \<open>incorporate_float\<close>.\<close>

definition current_int :: "state \<Rightarrow> nat" where
  "current_int s = int_from_bytes (current s)"

definition incorporate_int :: "(buffer \<Rightarrow> bool) \<Rightarrow> nat \<Rightarrow> bool shrink" where
  "incorporate_int p i s =
     (case int_to_bytes i (size_of s) of
        Inl e \<Rightarrow> (Inl e, s)
      | Inr b \<Rightarrow> incorporate p b s)"

definition incorporate_float :: "'f collaborators \<Rightarrow> (buffer \<Rightarrow> bool) \<Rightarrow> 'f \<Rightarrow> bool shrink" where
  "incorporate_float env p f s =
     (if size_of s = 8 then incorporate_int p (float_to_lex env f) s
      else (Inl AssertionError, s))"

text \<open>
  \<open>float_hack\<close>: the loop \<open>for g in [float('nan'), float('inf'), sys.float_info.max]\<close>
  with its local variables \<open>i\<close> and \<open>f\<close>, which it returns.
\<close>

fun float_specials ::
    "'f collaborators \<Rightarrow> (buffer \<Rightarrow> bool) \<Rightarrow> 'f list \<Rightarrow> nat \<Rightarrow> 'f \<Rightarrow> (nat \<times> 'f) shrink" where
  "float_specials env p [] i f s = (Inr (i, f), s)"
| "float_specials env p (g # gs) i f s =
     (let j = float_to_lex env g in
      if j < i
      then (case incorporate_int p j s of
              (Inl e, s') \<Rightarrow> (Inl e, s')
            | (Inr True, s') \<Rightarrow> float_specials env p gs j g s'
            | (Inr False, s') \<Rightarrow> float_specials env p gs i f s')
      else float_specials env p gs i f s)"

text \<open>The loop \<open>for g in [floor(f), ceil(f)]\<close>; the result says whether it returned.\<close>

fun float_roundings :: "'f collaborators \<Rightarrow> (buffer \<Rightarrow> bool) \<Rightarrow> 'f list \<Rightarrow> bool shrink" where
  "float_roundings env p [] s = (Inr False, s)"
| "float_roundings env p (g # gs) s =
     (case incorporate_float env p g s of
        (Inl e, s') \<Rightarrow> (Inl e, s')
      | (Inr True, s') \<Rightarrow> (Inr True, s')
      | (Inr False, s') \<Rightarrow> float_roundings env p gs s')"

definition float_hack :: "'f collaborators \<Rightarrow> (buffer \<Rightarrow> bool) \<Rightarrow> unit shrink" where
  "float_hack env p s =
     (if size_of s \<noteq> 8 then (Inr (), s)
      else if drop_bit 7 (current s ! 0) = 0 then (Inr (), s)
      else
        let i = current_int s; f = lex_to_float env i in
        if is_simple env f
        then (case incorporate_float env p f s of
                (Inl e, s') \<Rightarrow> (Inl e, s')
              | (Inr b, s') \<Rightarrow> (Inr (), s'))
        else
          (case float_specials env p [float_nan env, float_inf env, float_max env] i f s of
             (Inl e, s1) \<Rightarrow> (Inl e, s1)
           | (Inr (i1, f1), s1) \<Rightarrow>
               if isinf env f1 \<or> isnan env f1 then (Inr (), s1)
               else
                 (case float_roundings env p [float_floor env f1, float_ceil env f1] s1 of
                    (Inl e, s2) \<Rightarrow> (Inl e, s2)
                  | (Inr True, s2) \<Rightarrow> (Inr (), s2)
                  | (Inr False, s2) \<Rightarrow>
                      if greater_two env f1
                      then (case incorporate_float env p (minus_one env f1) s2 of
                              (Inl e, s3) \<Rightarrow> (Inl e, s3)
                            | (Inr b, s3) \<Rightarrow> (Inr (), s3))
                      else (Inr (), s2))))"

text \<open>
  \<open>minimize_as_integer(full)\<close>: the Integer shrinker is started on \<open>current_int\<close> with
  the lambda \<open>c == self.current_int or self.incorporate_int(c)\<close> as acceptance function.
\<close>

definition minimize_as_integer_accept :: "(buffer \<Rightarrow> bool) \<Rightarrow> nat \<Rightarrow> bool shrink" where
  "minimize_as_integer_accept p c s =
     (if c = current_int s then (Inr True, s) else incorporate_int p c s)"

definition minimize_as_integer ::
    "'f collaborators \<Rightarrow> (buffer \<Rightarrow> bool) \<Rightarrow> bool \<Rightarrow> unit shrink" where
  "minimize_as_integer env p fl s =
     run_collab (minimize_as_integer_accept p) (Integer_shrink env (current_int s) fl) s"

text \<open>
  \<open>sort\<close> (here \<open>sort_heuristic\<close>, as \<open>sort\<close> is HOL's sorting function, which stands for
  Python's \<open>sorted\<close>) and \<open>partial_sort\<close>. Both hand their candidates to
  \<open>self.consider\<close>.
\<close>

definition sort_heuristic :: "(buffer \<Rightarrow> bool) \<Rightarrow> bool shrink" where
  "sort_heuristic p s = consider_value p (sort (current s)) s"

definition partial_sort :: "'f collaborators \<Rightarrow> (buffer \<Rightarrow> bool) \<Rightarrow> unit shrink" where
  "partial_sort env p s = run_collab (consider_value p) (Ordering_shrink env (current s)) s"

text \<open>
  \<open>short_circuit\<close>: the loop \<open>for c in (0, 1)\<close>, whose result says whether it returned
  True; it probes through \<open>self.consider\<close>. \<open>[0] * (self.size - 1)\<close> is the empty list when \<open>size\<close> is 0, as is
  \<open>replicate\<close> with the truncated subtraction.
\<close>

fun short_circuit_initial :: "(buffer \<Rightarrow> bool) \<Rightarrow> byte list \<Rightarrow> bool shrink" where
  "short_circuit_initial p [] s = (Inr False, s)"
| "short_circuit_initial p (c # cs) s =
     (case consider_value p (replicate (size_of s - 1) 0 @ [c]) s of
        (Inl e, s') \<Rightarrow> (Inl e, s')
      | (Inr True, s') \<Rightarrow> (Inr True, s')
      | (Inr False, s') \<Rightarrow> short_circuit_initial p cs s')"

text \<open>
  The binary search \<open>while lo + 1 < hi\<close>; it returns the final \<open>lo\<close> and \<open>hi\<close>.
  \<open>mid\<close> lies strictly between \<open>lo\<close> and \<open>hi\<close> and \<open>lo\<close> starts at 0, so \<open>mid\<close> is
  never negative.
\<close>

function short_circuit_search :: "(buffer \<Rightarrow> bool) \<Rightarrow> int \<Rightarrow> int \<Rightarrow> (int \<times> int) shrink" where
  "short_circuit_search p lo hi s =
     (if lo + 1 < hi
      then (let mid = (lo + hi) div 2 in
            case consider_value p (replicate (nat mid) 0 @ drop (nat mid) (current s)) s of
              (Inl e, s') \<Rightarrow> (Inl e, s')
            | (Inr True, s') \<Rightarrow> short_circuit_search p mid hi s'
            | (Inr False, s') \<Rightarrow> short_circuit_search p lo mid s')
      else (Inr (lo, hi), s))"
  by pat_completeness auto

termination
  by (relation "measure (\<lambda>(p, lo, hi, s). nat (hi - lo))") auto

text \<open>
  The whole method; \<open>any(self.current[:-1])\<close> asks for a nonzero byte before the last.
\<close>

definition short_circuit :: "'f collaborators \<Rightarrow> (buffer \<Rightarrow> bool) \<Rightarrow> bool shrink" where
  "short_circuit env p s =
     (case short_circuit_initial p [0, 1] s of
        (Inl e, s1) \<Rightarrow> (Inl e, s1)
      | (Inr True, s1) \<Rightarrow> (Inr True, s1)
      | (Inr False, s1) \<Rightarrow>
          (case short_circuit_search p 0 (int (size_of s1) - 1) s1 of
             (Inl e, s2) \<Rightarrow> (Inl e, s2)
           | (Inr lohi, s2) \<Rightarrow>
               if list_all (\<lambda>b. b = 0) (butlast (current s2))
               then (case minimize_as_integer env p (full s2) s2 of
                       (Inl e, s3) \<Rightarrow> (Inl e, s3)
                     | (Inr u, s3) \<Rightarrow> (Inr True, s3))
               else (Inr False, s2)))"

subsection \<open>Sequences of operations\<close>

text \<open>Sequencing of methods of which one (\<open>shift\<close>) may not return.\<close>

definition and_then ::
    "((error + 'a) \<times> state) option \<Rightarrow> (state \<Rightarrow> ((error + 'b) \<times> state) option)
      \<Rightarrow> ((error + 'b) \<times> state) option" where
  "and_then r f =
     (case r of
        None \<Rightarrow> None
      | Some (Inl e, s) \<Rightarrow> Some (Inl e, s)
      | Some (Inr x, s) \<Rightarrow> f s)"

text \<open>\<open>run_step\<close>: the seven heuristics in the order of the source.\<close>

definition run_step ::
    "'f collaborators \<Rightarrow> (buffer \<Rightarrow> bool) \<Rightarrow> state \<Rightarrow> ((error + unit) \<times> state) option" where
  "run_step env p s =
     and_then (Some (sort_heuristic p s)) (\<lambda>s.
     and_then (Some (float_hack env p s)) (\<lambda>s.
     and_then (shift p s) (\<lambda>s.
     and_then (Some (shrink_indices env p s)) (\<lambda>s.
     and_then (Some (rotate_suffixes p s)) (\<lambda>s.
     and_then (Some (minimize_as_integer env p False s)) (\<lambda>s.
     Some (partial_sort env p s)))))))"

text \<open>
  The operations a caller can invoke on a shrinker object: the two entry points of the
  probe protocol and the methods of \<open>Lexical\<close>.
\<close>

datatype heuristic =
    Incorporate buffer | Consider buffer
  | Sort | FloatHack | Shift | ShrinkIndices | RotateSuffixes
  | MinimizeAsInteger bool | PartialSort | ShortCircuit | RunStep

fun apply_heuristic ::
    "'f collaborators \<Rightarrow> (buffer \<Rightarrow> bool) \<Rightarrow> heuristic \<Rightarrow> state
      \<Rightarrow> ((error + unit) \<times> state) option" where
  "apply_heuristic env p (Incorporate c) s = and_then (Some (incorporate p c s)) (\<lambda>s. Some (Inr (), s))"
| "apply_heuristic env p (Consider c) s = and_then (Some (consider_value p c s)) (\<lambda>s. Some (Inr (), s))"
| "apply_heuristic env p Sort s = and_then (Some (sort_heuristic p s)) (\<lambda>s. Some (Inr (), s))"
| "apply_heuristic env p FloatHack s = Some (float_hack env p s)"
| "apply_heuristic env p Shift s = shift p s"
| "apply_heuristic env p ShrinkIndices s = Some (shrink_indices env p s)"
| "apply_heuristic env p RotateSuffixes s = Some (rotate_suffixes p s)"
| "apply_heuristic env p (MinimizeAsInteger fl) s = Some (minimize_as_integer env p fl s)"
| "apply_heuristic env p PartialSort s = Some (partial_sort env p s)"
| "apply_heuristic env p ShortCircuit s = and_then (Some (short_circuit env p s)) (\<lambda>s. Some (Inr (), s))"
| "apply_heuristic env p RunStep s = run_step env p s"

fun run_heuristics ::
    "'f collaborators \<Rightarrow> (buffer \<Rightarrow> bool) \<Rightarrow> heuristic list \<Rightarrow> state
      \<Rightarrow> ((error + unit) \<times> state) option" where
  "run_heuristics env p [] s = Some (Inr (), s)"
| "run_heuristics env p (h # hs) s = and_then (apply_heuristic env p h s) (run_heuristics env p hs)"

subsection \<open>Notions used in the statements\<close>

text \<open>
  One call of \<open>incorporate\<close>, with any candidate, seen as a transition of the state. The
  reflexive transitive closure of this relation is what a method can do to the object
  when it changes the state through \<open>incorporate\<close> only.
\<close>

definition probe_step :: "(buffer \<Rightarrow> bool) \<Rightarrow> state \<Rightarrow> state \<Rightarrow> bool" where
  "probe_step p s s' = (\<exists>c. s' = snd (incorporate p c s))"

text \<open>
  The cache as a log of the predicate's invocations (newest first): no entry is for a
  buffer that an older entry records as failing.
\<close>

fun no_resubmission :: "(buffer \<times> bool) list \<Rightarrow> bool" where
  "no_resubmission [] = True"
| "no_resubmission ((b, r) # older) = ((b, False) \<notin> set older \<and> no_resubmission older)"

text \<open>Every cached outcome is the predicate's answer for that buffer.\<close>

definition cache_sound :: "(buffer \<Rightarrow> bool) \<Rightarrow> state \<Rightarrow> bool" where
  "cache_sound p s = list_all (\<lambda>(b, r). r = p b) (probeCache s)"

text \<open>
  Modelled from the spec: the lexicographic predecessor of a buffer (4.2, G1), "the buffer
  obtained by decrementing it by one as a big-endian integer, or nonexistent if current is
  all-zero". \<open>decrement_le\<close> subtracts one with borrow from a little-endian list of
  bytes, the least significant byte first.
\<close>

fun decrement_le :: "buffer \<Rightarrow> buffer option" where
  "decrement_le [] = None"
| "decrement_le (x # xs) =
     (if x = 0 then map_option ((#) 255) (decrement_le xs) else Some ((x - 1) # xs))"

definition predecessor :: "buffer \<Rightarrow> buffer option" where
  "predecessor b = map_option rev (decrement_le (rev b))"

text \<open>
  Modelled from the spec: the contract of the Integer shrinker (shrinking/integer.py, not
  in the sources; spec 4.4 and 6): it minimizes an unsigned integer, proposing smaller
  values to the acceptance function, and "must itself loop to a local fixpoint before
  returning". \<open>v\<close> is the value the shrinker holds (the initial value, then the last
  accepted candidate) and \<open>rejected\<close> the candidates refused so far. Every candidate is
  below \<open>v\<close>, and the shrinker returns only when \<open>v\<close> is 0 or \<open>v - 1\<close> has been
  refused.
\<close>

fun meets_contract :: "nat \<Rightarrow> nat list \<Rightarrow> nat collab \<Rightarrow> bool" where
  "meets_contract v rejected Done = (v = 0 \<or> v - 1 \<in> set rejected)"
| "meets_contract v rejected (Try c yes no) =
     (c < v \<and> meets_contract c rejected yes \<and> meets_contract v (c # rejected) no)"

text \<open>
  The spec's description of \<open>rotate_suffixes\<close> (4.5), in its words: \<open>significant\<close> is
  the index of the first nonzero byte; for every split point \<open>i\<close> from 1 to
  \<open>length - significant - 1\<close>, \<open>left\<close> is the next \<open>i\<close> bytes after the prefix and
  \<open>right\<close> the rest, \<open>rotated = prefix ++ right ++ left\<close>, and \<open>rotated\<close> is handed to
  \<open>try\<close> only if it is already smaller than \<open>current\<close>.
\<close>

definition first_nonzero :: "buffer \<Rightarrow> nat" where
  "first_nonzero b = length (takeWhile (\<lambda>x. x = 0) b)"

definition rotated_candidate :: "nat \<Rightarrow> nat \<Rightarrow> buffer \<Rightarrow> buffer" where
  "rotated_candidate significant i cur =
     replicate significant 0 @ drop (significant + i) cur @ take i (drop significant cur)"

definition rotate_split_spec :: "(buffer \<Rightarrow> bool) \<Rightarrow> nat \<Rightarrow> state \<Rightarrow> nat \<Rightarrow> state" where
  "rotate_split_spec p significant s i =
     (if rotated_candidate significant i (current s) < current s
      then snd (incorporate p (rotated_candidate significant i (current s)) s)
      else s)"

definition rotate_suffixes_spec :: "(buffer \<Rightarrow> bool) \<Rightarrow> state \<Rightarrow> state" where
  "rotate_suffixes_spec p s =
     foldl (rotate_split_spec p (first_nonzero (current s))) s
       [1 ..< length (current s) - first_nonzero (current s)]"

text \<open>
  The spec's description of step 3 of \<open>float_hack\<close> (4.8), in its words: for each of
  NaN, +Infinity and the maximum finite double, in that order, compute its lexical code
  \<open>j\<close>; if \<open>j\<close> is below the buffer's current big-endian integer value, probe the
  encoded buffer via \<open>try\<close>; on acceptance the tracked float becomes that value.
\<close>

definition special_probe_spec ::
    "'f collaborators \<Rightarrow> (buffer \<Rightarrow> bool) \<Rightarrow> 'f \<times> state \<Rightarrow> 'f \<Rightarrow> 'f \<times> state" where
  "special_probe_spec env p tracked g =
     (case tracked of (f, s) \<Rightarrow>
        let j = float_to_lex env g in
        if j < current_int s
        then (if fst (incorporate p (to_bytes j 8) s) = Inr True
              then (g, snd (incorporate p (to_bytes j 8) s))
              else (f, snd (incorporate p (to_bytes j 8) s)))
        else (f, s))"

definition special_phase_spec ::
    "'f collaborators \<Rightarrow> (buffer \<Rightarrow> bool) \<Rightarrow> state \<Rightarrow> 'f \<times> state" where
  "special_phase_spec env p s =
     foldl (special_probe_spec env p) (lex_to_float env (current_int s), s)
       [float_nan env, float_inf env, float_max env]"

subsection \<open>Collaborators for the closed examples\<close>

text \<open>
  An Integer shrinker that steps down by one while its candidates are accepted, an
  Ordering shrinker that proposes the sorted sequence, and a float codec in which a float
  is its own lexical code.
\<close>

fun linear_shrink :: "nat \<Rightarrow> nat collab" where
  "linear_shrink 0 = Done"
| "linear_shrink (Suc n) = Try n (linear_shrink n) Done"

definition example_collaborators :: "nat collaborators" where
  "example_collaborators =
     \<lparr>Integer_shrink = (\<lambda>v fl. linear_shrink v),
      Ordering_shrink = (\<lambda>b. Try (sort b) Done Done),
      float_to_lex = (\<lambda>f. f), lex_to_float = (\<lambda>i. i), is_simple = (\<lambda>f. False),
      float_nan = 5, float_inf = 6, float_max = 7,
      isinf = (\<lambda>f. f = 6), isnan = (\<lambda>f. f = 5),
      float_floor = (\<lambda>f. f), float_ceil = (\<lambda>f. f),
      greater_two = (\<lambda>f. 2 < f), minus_one = (\<lambda>f. f - 1)\<rparr>"

section \<open>Every method acts on the state through the probe protocol only\<close>

text \<open>
  Each method of \<open>Lexical\<close> takes the state to one that a finite chain of calls of
  \<open>incorporate\<close> reaches: no method writes \<open>current\<close>, \<open>changes\<close> or the cache itself.
  The lemmas follow the call structure of the methods.
\<close>

lemma incorporate_steps: "(probe_step p)\<^sup>*\<^sup>* s (snd (incorporate p c s))"
  unfolding probe_step_def by blast

lemma consider_value_steps: "(probe_step p)\<^sup>*\<^sup>* s (snd (consider_value p c s))"
  by (simp add: consider_value_def incorporate_steps)

lemma incorporate_int_steps: "(probe_step p)\<^sup>*\<^sup>* s (snd (incorporate_int p i s))"
  by (simp add: incorporate_int_def incorporate_steps split: sum.split)

lemma incorporate_float_steps: "(probe_step p)\<^sup>*\<^sup>* s (snd (incorporate_float env p f s))"
  by (simp add: incorporate_float_def incorporate_int_steps)

lemma steps_snd: "(probe_step p)\<^sup>*\<^sup>* s (snd m) \<Longrightarrow> m = (r, s') \<Longrightarrow> (probe_step p)\<^sup>*\<^sup>* s s'"
  by simp

lemma run_collab_steps:
  assumes "\<And>c t. (probe_step p)\<^sup>*\<^sup>* t (snd (accept c t))"
  shows "(probe_step p)\<^sup>*\<^sup>* s (snd (run_collab accept t s))"
proof (induction t arbitrary: s)
  case Done
  show ?case by simp
next
  case (Try c yes no)
  have a: "(probe_step p)\<^sup>*\<^sup>* s (snd (accept c s))" by (rule assms)
  show ?case
  proof (cases "accept c s")
    case (Pair r s')
    with a have b: "(probe_step p)\<^sup>*\<^sup>* s s'" by simp
    show ?thesis
    proof (cases r)
      case (Inl e)
      with Pair b show ?thesis by simp
    next
      case (Inr ans)
      with Pair b Try.IH(1) [of s'] Try.IH(2) [of s'] show ?thesis
        by (cases ans) (auto intro: rtranclp_trans)
    qed
  qed
qed

lemma shift_byte_steps: "(probe_step p)\<^sup>*\<^sup>* s (snd (shift_byte p block i c k s))"
proof (induction k arbitrary: s)
  case 0
  show ?case by simp
next
  case (Suc k)
  let ?m = "incorporate p (block[i := drop_bit (Suc k) c]) s"
  have a: "(probe_step p)\<^sup>*\<^sup>* s (snd ?m)" by (rule incorporate_steps)
  show ?case
  proof (cases ?m)
    case (Pair r s')
    with a have b: "(probe_step p)\<^sup>*\<^sup>* s s'" by simp
    from Pair b Suc.IH [of s'] show ?thesis
      by (auto split: sum.split bool.split intro: rtranclp_trans)
  qed
qed

lemma shift_pass_steps: "(probe_step p)\<^sup>*\<^sup>* s (snd (shift_pass p is s))"
proof (induction "is" arbitrary: s)
  case Nil
  show ?case by simp
next
  case (Cons i "is")
  let ?m = "shift_byte p (current s) i (current s ! i) (bit_length (unat (current s ! i))) s"
  have a: "(probe_step p)\<^sup>*\<^sup>* s (snd ?m)" by (rule shift_byte_steps)
  show ?case
  proof (cases ?m)
    case (Pair r s')
    with a have b: "(probe_step p)\<^sup>*\<^sup>* s s'" by simp
    from Pair b Cons.IH [of s'] show ?thesis
      by (auto simp: Let_def split: sum.split intro: rtranclp_trans)
  qed
qed

lemma shift_while_steps:
  assumes "shift_while p prev s = Some res"
  shows "(probe_step p)\<^sup>*\<^sup>* s (snd res)"
proof (rule shift_while.raw_induct [where P = "\<lambda>q prev s res. (probe_step q)\<^sup>*\<^sup>* s (snd res)", OF _ assms])
  fix sw :: "(buffer \<Rightarrow> bool) \<Rightarrow> int \<Rightarrow> state \<Rightarrow> ((error + unit) \<times> state) option"
  fix p prev s res
  assume IH: "\<And>q prev s res. sw q prev s = Some res \<Longrightarrow> (probe_step q)\<^sup>*\<^sup>* s (snd res)"
  assume body: "(if prev \<noteq> int (changes s)
      then case shift_pass p [0..<size_of s] s of
           (Inl e, s') \<Rightarrow> Some (Inl e, s')
           | (Inr u, s') \<Rightarrow> sw p (int (changes s)) s'
      else Some (Inr (), s)) = Some res"
  show "(probe_step p)\<^sup>*\<^sup>* s (snd res)"
  proof (cases "prev \<noteq> int (changes s)")
    case False
    with body show ?thesis by auto
  next
    case True
    have a: "(probe_step p)\<^sup>*\<^sup>* s (snd (shift_pass p [0 ..< size_of s] s))"
      by (rule shift_pass_steps)
    show ?thesis
    proof (cases "shift_pass p [0 ..< size_of s] s")
      case (Pair r s')
      with a have b: "(probe_step p)\<^sup>*\<^sup>* s s'" by simp
      show ?thesis
      proof (cases r)
        case (Inl e)
        with Pair True body have "res = (Inl e, s')" by simp
        with b show ?thesis by simp
      next
        case (Inr u)
        with Pair True body have "sw p (int (changes s)) s' = Some res" by simp
        then have "(probe_step p)\<^sup>*\<^sup>* s' (snd res)" by (rule IH)
        with b show ?thesis by (rule rtranclp_trans)
      qed
    qed
  qed
qed

lemma shift_steps: "shift p s = Some res \<Longrightarrow> (probe_step p)\<^sup>*\<^sup>* s (snd res)"
  unfolding shift_def by (rule shift_while_steps)

lemma rotate_loop_steps: "(probe_step p)\<^sup>*\<^sup>* s (snd (rotate_loop p sg prefix is s))"
proof (induction "is" arbitrary: s)
  case Nil
  show ?case by simp
next
  case (Cons i "is")
  let ?rot = "prefix @ drop (sg + i) (current s) @ take i (drop sg (current s))"
  show ?case
  proof (cases "?rot < current s")
    case False
    with Cons.IH [of s] show ?thesis by (simp add: Let_def)
  next
    case True
    have a: "(probe_step p)\<^sup>*\<^sup>* s (snd (incorporate p ?rot s))" by (rule incorporate_steps)
    show ?thesis
    proof (cases "incorporate p ?rot s")
      case (Pair r s')
      with a have b: "(probe_step p)\<^sup>*\<^sup>* s s'" by simp
      from Pair b True Cons.IH [of s'] show ?thesis
        by (auto simp: Let_def split: sum.split intro: rtranclp_trans)
    qed
  qed
qed

lemma rotate_suffixes_steps: "(probe_step p)\<^sup>*\<^sup>* s (snd (rotate_suffixes p s))"
  by (simp add: rotate_suffixes_def rotate_loop_steps split: option.split)

lemma shrink_index_accept_steps:
  "(probe_step p)\<^sup>*\<^sup>* s (snd (shrink_index_accept p i prefix suffix c s))"
  by (simp add: shrink_index_accept_def incorporate_steps)

lemma shrink_indices_loop_steps: "(probe_step p)\<^sup>*\<^sup>* s (snd (shrink_indices_loop env p is s))"
proof (induction "is" arbitrary: s)
  case Nil
  show ?case by simp
next
  case (Cons i "is")
  let ?m = "run_collab (shrink_index_accept p i (take i (current s)) (drop (i + 1) (current s)))
             (Integer_shrink env (unat (current s ! i)) False) s"
  have a: "(probe_step p)\<^sup>*\<^sup>* s (snd ?m)"
    by (rule run_collab_steps) (rule shrink_index_accept_steps)
  show ?case
  proof (cases ?m)
    case (Pair r s')
    with a have b: "(probe_step p)\<^sup>*\<^sup>* s s'" by simp
    from Pair b Cons.IH [of s'] show ?thesis
      by (auto simp: Let_def split: sum.split intro: rtranclp_trans)
  qed
qed

lemma shrink_indices_steps: "(probe_step p)\<^sup>*\<^sup>* s (snd (shrink_indices env p s))"
  by (simp add: shrink_indices_def shrink_indices_loop_steps)

lemma minimize_as_integer_accept_steps:
  "(probe_step p)\<^sup>*\<^sup>* s (snd (minimize_as_integer_accept p c s))"
  by (simp add: minimize_as_integer_accept_def incorporate_int_steps)

lemma minimize_as_integer_steps: "(probe_step p)\<^sup>*\<^sup>* s (snd (minimize_as_integer env p fl s))"
  unfolding minimize_as_integer_def
  by (rule run_collab_steps) (rule minimize_as_integer_accept_steps)

lemma sort_heuristic_steps: "(probe_step p)\<^sup>*\<^sup>* s (snd (sort_heuristic p s))"
  by (simp add: sort_heuristic_def consider_value_steps)

lemma partial_sort_steps: "(probe_step p)\<^sup>*\<^sup>* s (snd (partial_sort env p s))"
  unfolding partial_sort_def
  by (rule run_collab_steps) (rule consider_value_steps)

lemma short_circuit_initial_steps: "(probe_step p)\<^sup>*\<^sup>* s (snd (short_circuit_initial p cs s))"
proof (induction cs arbitrary: s)
  case Nil
  show ?case by simp
next
  case (Cons c cs)
  let ?m = "consider_value p (replicate (size_of s - 1) 0 @ [c]) s"
  have a: "(probe_step p)\<^sup>*\<^sup>* s (snd ?m)" by (rule consider_value_steps)
  show ?case
  proof (cases ?m)
    case (Pair r s')
    with a have b: "(probe_step p)\<^sup>*\<^sup>* s s'" by simp
    from Pair b Cons.IH [of s'] show ?thesis
      by (auto split: sum.split bool.split intro: rtranclp_trans)
  qed
qed

lemma short_circuit_search_steps: "(probe_step p)\<^sup>*\<^sup>* s (snd (short_circuit_search p lo hi s))"
proof (induction p lo hi s rule: short_circuit_search.induct)
  case (1 p lo hi s)
  show ?case
  proof (cases "lo + 1 < hi")
    case False
    then show ?thesis by simp
  next
    case True
    let ?mid = "(lo + hi) div 2"
    let ?m = "consider_value p (replicate (nat ?mid) 0 @ drop (nat ?mid) (current s)) s"
    have a: "(probe_step p)\<^sup>*\<^sup>* s (snd ?m)" by (rule consider_value_steps)
    show ?thesis
    proof (cases ?m)
      case (Pair r s')
      with a have b: "(probe_step p)\<^sup>*\<^sup>* s s'" by simp
      show ?thesis
      proof (cases r)
        case (Inl e)
        with Pair True b show ?thesis by (simp add: Let_def)
      next
        case (Inr ans)
        show ?thesis
        proof (cases ans)
          case True
          with \<open>lo + 1 < hi\<close> Pair Inr have "(probe_step p)\<^sup>*\<^sup>* s' (snd (short_circuit_search p ?mid hi s'))"
            by (intro 1(1)) auto
          with b True \<open>lo + 1 < hi\<close> Pair Inr show ?thesis
            by (simp add: Let_def del: short_circuit_search.simps add: short_circuit_search.simps [of p lo hi s])
        next
          case False
          with \<open>lo + 1 < hi\<close> Pair Inr have "(probe_step p)\<^sup>*\<^sup>* s' (snd (short_circuit_search p lo ?mid s'))"
            by (intro 1(2)) auto
          with b False \<open>lo + 1 < hi\<close> Pair Inr show ?thesis
            by (simp add: Let_def del: short_circuit_search.simps add: short_circuit_search.simps [of p lo hi s])
        qed
      qed
    qed
  qed
qed

lemma float_specials_steps: "(probe_step p)\<^sup>*\<^sup>* s (snd (float_specials env p gs i f s))"
proof (induction gs arbitrary: i f s)
  case Nil
  show ?case by simp
next
  case (Cons g gs)
  show ?case
  proof (cases "float_to_lex env g < i")
    case False
    with Cons.IH show ?thesis by (simp add: Let_def)
  next
    case True
    let ?m = "incorporate_int p (float_to_lex env g) s"
    have a: "(probe_step p)\<^sup>*\<^sup>* s (snd ?m)" by (rule incorporate_int_steps)
    show ?thesis
    proof (cases ?m)
      case (Pair r s')
      with a have b: "(probe_step p)\<^sup>*\<^sup>* s s'" by simp
      from Pair b True Cons.IH show ?thesis
        by (auto simp: Let_def split: sum.split bool.split intro: rtranclp_trans)
    qed
  qed
qed

lemma float_roundings_steps: "(probe_step p)\<^sup>*\<^sup>* s (snd (float_roundings env p gs s))"
proof (induction gs arbitrary: s)
  case Nil
  show ?case by simp
next
  case (Cons g gs)
  let ?m = "incorporate_float env p g s"
  have a: "(probe_step p)\<^sup>*\<^sup>* s (snd ?m)" by (rule incorporate_float_steps)
  show ?case
  proof (cases ?m)
    case (Pair r s')
    with a have b: "(probe_step p)\<^sup>*\<^sup>* s s'" by simp
    from Pair b Cons.IH [of s'] show ?thesis
      by (auto split: sum.split bool.split intro: rtranclp_trans)
  qed
qed

lemma float_hack_steps: "(probe_step p)\<^sup>*\<^sup>* s (snd (float_hack env p s))"
proof -
  let ?i = "current_int s"
  let ?f = "lex_to_float env ?i"
  have simple: "(probe_step p)\<^sup>*\<^sup>* s (snd (case incorporate_float env p ?f s of
                (Inl e, s') \<Rightarrow> (Inl e, s')
              | (Inr b, s') \<Rightarrow> (Inr (), s')))"
    using incorporate_float_steps [of p s env ?f]
    by (auto split: prod.split sum.split)
  have tail: "(probe_step p)\<^sup>*\<^sup>* s1 (snd (
                 (case float_roundings env p [float_floor env f1, float_ceil env f1] s1 of
                    (Inl e, s2) \<Rightarrow> (Inl e, s2)
                  | (Inr True, s2) \<Rightarrow> (Inr (), s2)
                  | (Inr False, s2) \<Rightarrow>
                      if greater_two env f1
                      then (case incorporate_float env p (minus_one env f1) s2 of
                              (Inl e, s3) \<Rightarrow> (Inl e, s3)
                            | (Inr b, s3) \<Rightarrow> (Inr (), s3))
                      else (Inr (), s2))))" for s1 f1
  proof (cases "float_roundings env p [float_floor env f1, float_ceil env f1] s1")
    case (Pair r s2)
    have b: "(probe_step p)\<^sup>*\<^sup>* s1 s2"
      by (rule steps_snd [OF float_roundings_steps Pair])
    have c: "(probe_step p)\<^sup>*\<^sup>* s2 (snd (incorporate_float env p (minus_one env f1) s2))"
      by (rule incorporate_float_steps)
    from b c show ?thesis unfolding Pair
      by (auto split: sum.split bool.split prod.split intro: rtranclp_trans)
  qed
  have special: "(probe_step p)\<^sup>*\<^sup>* s (snd (
          (case float_specials env p [float_nan env, float_inf env, float_max env] ?i ?f s of
             (Inl e, s1) \<Rightarrow> (Inl e, s1)
           | (Inr (i1, f1), s1) \<Rightarrow>
               if isinf env f1 \<or> isnan env f1 then (Inr (), s1)
               else
                 (case float_roundings env p [float_floor env f1, float_ceil env f1] s1 of
                    (Inl e, s2) \<Rightarrow> (Inl e, s2)
                  | (Inr True, s2) \<Rightarrow> (Inr (), s2)
                  | (Inr False, s2) \<Rightarrow>
                      if greater_two env f1
                      then (case incorporate_float env p (minus_one env f1) s2 of
                              (Inl e, s3) \<Rightarrow> (Inl e, s3)
                            | (Inr b, s3) \<Rightarrow> (Inr (), s3))
                      else (Inr (), s2)))))"
  proof (cases "float_specials env p [float_nan env, float_inf env, float_max env] ?i ?f s")
    case (Pair r s1)
    have b: "(probe_step p)\<^sup>*\<^sup>* s s1"
      by (rule steps_snd [OF float_specials_steps Pair])
    show ?thesis
    proof (cases r)
      case (Inl e)
      with b show ?thesis unfolding Pair by simp
    next
      case (Inr if1)
      obtain i1 f1 where "if1 = (i1, f1)" by (cases if1)
      with Inr b tail [of s1 f1] show ?thesis unfolding Pair
        by (auto intro: rtranclp_trans simp del: float_roundings.simps)
    qed
  qed
  from simple special show ?thesis
    unfolding float_hack_def Let_def by (simp del: float_specials.simps float_roundings.simps)
qed

lemma short_circuit_steps: "(probe_step p)\<^sup>*\<^sup>* s (snd (short_circuit env p s))"
  unfolding short_circuit_def
  by (auto split: prod.split sum.split bool.split
        simp del: short_circuit_initial.simps short_circuit_search.simps
        dest!: steps_snd [OF short_circuit_initial_steps] steps_snd [OF short_circuit_search_steps]
          steps_snd [OF minimize_as_integer_steps]
        intro: rtranclp_trans)

lemma and_then_steps:
  assumes "and_then r f = Some res"
    and "\<And>t. r = Some t \<Longrightarrow> (probe_step p)\<^sup>*\<^sup>* s (snd t)"
    and "\<And>t res. f t = Some res \<Longrightarrow> (probe_step p)\<^sup>*\<^sup>* t (snd res)"
  shows "(probe_step p)\<^sup>*\<^sup>* s (snd res)"
proof (cases r)
  case None
  with assms(1) show ?thesis by (simp add: and_then_def)
next
  case (Some t)
  obtain x s1 where t: "t = (x, s1)" by (cases t)
  from assms(2) [OF Some] t have b: "(probe_step p)\<^sup>*\<^sup>* s s1" by simp
  show ?thesis
  proof (cases x)
    case (Inl e)
    with assms(1) Some t b show ?thesis by (auto simp: and_then_def)
  next
    case (Inr v)
    with assms(1) Some t have "f s1 = Some res" by (simp add: and_then_def)
    from assms(3) [OF this] b show ?thesis by (auto intro: rtranclp_trans)
  qed
qed

lemma run_step_steps:
  assumes "run_step env p s = Some res"
  shows "(probe_step p)\<^sup>*\<^sup>* s (snd res)"
  using assms unfolding run_step_def
  by (elim and_then_steps)
     (auto simp: sort_heuristic_steps float_hack_steps shrink_indices_steps rotate_suffixes_steps
        minimize_as_integer_steps partial_sort_steps dest: shift_steps)

lemma apply_heuristic_steps:
  assumes "apply_heuristic env p h s = Some res"
  shows "(probe_step p)\<^sup>*\<^sup>* s (snd res)"
proof (cases h)
  case RunStep
  with assms show ?thesis by (simp add: run_step_steps)
next
  case Shift
  with assms show ?thesis by (simp add: shift_steps)
qed (use assms in \<open>auto simp: and_then_def float_hack_steps shrink_indices_steps
       rotate_suffixes_steps minimize_as_integer_steps partial_sort_steps
       split: prod.splits sum.splits
       dest!: steps_snd [OF incorporate_steps] steps_snd [OF consider_value_steps]
         steps_snd [OF sort_heuristic_steps] steps_snd [OF short_circuit_steps]\<close>)

lemma run_heuristics_steps:
  "run_heuristics env p hs s = Some res \<Longrightarrow> (probe_step p)\<^sup>*\<^sup>* s (snd res)"
proof (induction hs arbitrary: s res)
  case Nil
  then show ?case by auto
next
  case (Cons h hs)
  from Cons.prems show ?case
    by (simp only: run_heuristics.simps) (erule and_then_steps, auto dest: apply_heuristic_steps Cons.IH)
qed

section \<open>Invariants of the probe protocol\<close>

text \<open>
  What one call of \<open>incorporate\<close> does to the state, and what therefore holds along every
  chain of calls: the length of \<open>current\<close> and \<open>full\<close> are kept, \<open>changes\<close> counts the
  strict decreases of \<open>current\<close>, a valid \<open>current\<close> stays valid, and the cache grows at
  its head by buffers below \<open>current\<close>.
\<close>

lemma incorporate_cases:
  assumes "incorporate p c s = (r, s')"
  shows "(s' = s \<and> r \<noteq> Inr True)
    \<or> (length c = length (current s) \<and> c < current s \<and> (c, False) \<notin> set (probeCache s)
        \<and> \<not> p c \<and> r = Inr False \<and> s' = s\<lparr>probeCache := (c, False) # probeCache s\<rparr>)
    \<or> (length c = length (current s) \<and> c < current s \<and> (c, False) \<notin> set (probeCache s)
        \<and> p c \<and> r = Inr True
        \<and> s' = s\<lparr>current := c, changes := Suc (changes s), probeCache := (c, True) # probeCache s\<rparr>)"
  using assms
  by (auto simp: incorporate_def then_do_def check_invariants_def size_of_def left_is_better_def
        cached_failing_def split: if_splits)

lemma probe_step_cases:
  assumes "probe_step p s s'"
  shows "s' = s
    \<or> (\<exists>c. length c = length (current s) \<and> c < current s \<and> (c, False) \<notin> set (probeCache s)
        \<and> \<not> p c \<and> s' = s\<lparr>probeCache := (c, False) # probeCache s\<rparr>)
    \<or> (\<exists>c. length c = length (current s) \<and> c < current s \<and> (c, False) \<notin> set (probeCache s)
        \<and> p c
        \<and> s' = s\<lparr>current := c, changes := Suc (changes s), probeCache := (c, True) # probeCache s\<rparr>)"
proof -
  from assms obtain c where "s' = snd (incorporate p c s)" by (auto simp: probe_step_def)
  then have "incorporate p c s = (fst (incorporate p c s), s')" by simp
  from incorporate_cases [OF this] show ?thesis by blast
qed

lemma probe_steps_order:
  assumes "(probe_step p)\<^sup>*\<^sup>* s s'"
  shows "length (current s') = length (current s) \<and> full s' = full s \<and> changes s \<le> changes s'
    \<and> (changes s' = changes s \<longrightarrow> current s' = current s)
    \<and> (changes s < changes s' \<longrightarrow> current s' < current s)"
  using assms
proof (induction rule: rtranclp_induct)
  case base
  show ?case by simp
next
  case (step t u)
  from probe_step_cases [OF step.hyps(2)] step.IH show ?case
    by (elim disjE exE) (auto simp: le_less dest: less_trans)
qed

lemma probe_steps_valid:
  assumes "(probe_step p)\<^sup>*\<^sup>* s s'" and "p (current s)"
  shows "p (current s')"
  using assms
proof (induction rule: rtranclp_induct)
  case base
  then show ?case by simp
next
  case (step t u)
  from probe_step_cases [OF step.hyps(2)] step.IH step.prems show ?case
    by (elim disjE exE) auto
qed

lemma probe_steps_cache:
  assumes "(probe_step p)\<^sup>*\<^sup>* s s'"
  shows "(\<exists>new. probeCache s' = new @ probeCache s)
    \<and> (no_resubmission (probeCache s) \<longrightarrow> no_resubmission (probeCache s'))"
  using assms
proof (induction rule: rtranclp_induct)
  case base
  show ?case by simp
next
  case (step t u)
  from probe_step_cases [OF step.hyps(2)] step.IH show ?case
    by (elim disjE exE) auto
qed

lemma probe_steps_log:
  assumes "(probe_step p)\<^sup>*\<^sup>* s s'"
  shows "\<exists>new. probeCache s' = new @ probeCache s
    \<and> list_all (\<lambda>(b, r). r = p b \<and> \<not> cached_failing s b) new"
  using assms
proof (induction rule: rtranclp_induct)
  case base
  show ?case by simp
next
  case (step t u)
  from step.IH obtain new where new: "probeCache t = new @ probeCache s"
    "list_all (\<lambda>(b, r). r = p b \<and> \<not> cached_failing s b) new" by blast
  from probe_step_cases [OF step.hyps(2)] new show ?case
    by (elim disjE exE) (auto simp: cached_failing_def)
qed

lemma probe_steps_new_entries:
  assumes "(probe_step p)\<^sup>*\<^sup>* s s'"
  shows "\<exists>new. probeCache s' = new @ probeCache s
    \<and> list_all (\<lambda>(b, r). b < current s \<and> length b = length (current s) \<and> r = p b) new"
  using assms
proof (induction rule: rtranclp_induct)
  case base
  show ?case by simp
next
  case (step t u)
  from step.IH obtain new where new: "probeCache t = new @ probeCache s"
    "list_all (\<lambda>(b, r). b < current s \<and> length b = length (current s) \<and> r = p b) new" by blast
  from probe_steps_order [OF step.hyps(1)]
  have le: "current t \<le> current s" "length (current t) = length (current s)"
    by (auto simp: le_less)
  from probe_step_cases [OF step.hyps(2)] new le show ?case
    by (elim disjE exE) auto
qed

lemma incorporate_no_error:
  "length c = length (current s) \<Longrightarrow> \<exists>b. fst (incorporate p c s) = Inr b"
  by (auto simp: incorporate_def then_do_def check_invariants_def size_of_def)

lemma incorporate_length: "length (current (snd (incorporate p c s))) = length (current s)"
  using probe_steps_order [OF incorporate_steps [of p s c]] by simp

lemma consider_value_no_error:
  "length c = length (current s) \<Longrightarrow> \<exists>b. fst (consider_value p c s) = Inr b"
  using incorporate_no_error [of c s p] by (auto simp: consider_value_def)

lemma consider_value_length:
  "length (current (snd (consider_value p c s))) = length (current s)"
  using probe_steps_order [OF consider_value_steps [of p s c]] by simp

section \<open>Big-endian integers and the lexicographic order\<close>

text \<open>
  On buffers of one length the lexicographic order is the order of the big-endian values;
  \<open>to_bytes\<close> and \<open>int_from_bytes\<close> are inverse to each other; and \<open>predecessor\<close> is the
  buffer of the value one less, the largest buffer of that length below the given one.
\<close>

lemma int_from_bytes_bound: "int_from_bytes bs < 256 ^ length bs"
proof (induction bs)
  case Nil
  show ?case by simp
next
  case (Cons b bs)
  have "unat b < 256" using unsigned_less [of b, where ?'a = nat] by simp
  then have "unat b \<le> 255" by simp
  then have "unat b * 256 ^ length bs \<le> 255 * 256 ^ length bs" by (rule mult_le_mono1)
  with Cons.IH have "unat b * 256 ^ length bs + int_from_bytes bs < 256 * 256 ^ length bs"
    by linarith
  then show ?case by simp
qed

lemma lex_less_int_less:
  assumes "length a = length b" and "a < b"
  shows "int_from_bytes a < int_from_bytes b"
  using assms
proof (induction a b rule: list_induct2)
  case Nil
  then show ?case by simp
next
  case (Cons x xs y ys)
  from Cons.prems have "x < y \<or> (x = y \<and> xs < ys)" by simp
  then show ?case
  proof
    assume "x < y"
    then have "unat x < unat y" by (simp add: word_less_nat_alt)
    then have "Suc (unat x) \<le> unat y" by simp
    then have "Suc (unat x) * 256 ^ length ys \<le> unat y * 256 ^ length ys"
      by (rule mult_le_mono1)
    moreover have "int_from_bytes xs < 256 ^ length ys"
      using int_from_bytes_bound [of xs] Cons.hyps by simp
    ultimately have "unat x * 256 ^ length ys + int_from_bytes xs < unat y * 256 ^ length ys"
      by simp
    then show ?thesis using Cons.hyps by simp
  next
    assume "x = y \<and> xs < ys"
    with Cons.IH Cons.hyps show ?thesis by simp
  qed
qed

lemma int_less_lex_less:
  assumes "length a = length b" and "int_from_bytes a < int_from_bytes b"
  shows "a < b"
proof (rule ccontr)
  assume "\<not> a < b"
  then have "b < a \<or> b = a" by auto
  with assms lex_less_int_less [of b a] show False by auto
qed

lemma length_to_bytes: "length (to_bytes i n) = n"
  by (induction n arbitrary: i) auto

lemma int_from_bytes_snoc: "int_from_bytes (xs @ [x]) = int_from_bytes xs * 256 + unat x"
  by (induction xs) (auto simp: algebra_simps)

lemma int_from_to_bytes: "int_from_bytes (to_bytes i n) = i mod 256 ^ n"
proof (induction n arbitrary: i)
  case 0
  show ?case by simp
next
  case (Suc n)
  have "unat (of_nat (i mod 256) :: byte) = i mod 256" by (simp add: unat_of_nat)
  with Suc [of "i div 256"] show ?case
    by (simp add: int_from_bytes_snoc mod_mult2_eq)
qed

lemma to_bytes_int_from_bytes: "to_bytes (int_from_bytes b) (length b) = b"
proof (induction b rule: rev_induct)
  case Nil
  show ?case by simp
next
  case (snoc x xs)
  have "unat x < 256" using unsigned_less [of x, where ?'a = nat] by simp
  with snoc show ?case by (simp add: int_from_bytes_snoc)
qed

lemma decrement_le_None: "decrement_le xs = None \<Longrightarrow> list_all (\<lambda>b. b = 0) xs"
  by (induction xs) (auto split: if_splits)

lemma decrement_le_Some:
  "decrement_le xs = Some ys \<Longrightarrow>
     length ys = length xs \<and> Suc (int_from_bytes (rev ys)) = int_from_bytes (rev xs)"
proof (induction xs arbitrary: ys)
  case Nil
  then show ?case by simp
next
  case (Cons x xs)
  show ?case
  proof (cases "x = 0")
    case True
    with Cons.prems obtain zs where zs: "decrement_le xs = Some zs" "ys = 255 # zs" by auto
    from Cons.IH [OF zs(1)] zs(2) True show ?thesis
      by (simp add: int_from_bytes_snoc)
  next
    case False
    then have "unat x \<noteq> 0" by (simp add: unat_eq_0)
    moreover from False have "unat (x - 1) = unat x - 1" by (rule unat_minus_one)
    moreover from False Cons.prems have "ys = (x - 1) # xs" by simp
    ultimately show ?thesis by (simp add: int_from_bytes_snoc)
  qed
qed

lemma predecessor_None: "predecessor b = None \<Longrightarrow> list_all (\<lambda>x. x = 0) b"
  using decrement_le_None [of "rev b"] by (simp add: predecessor_def list_all_iff)

lemma predecessor_Some:
  assumes "predecessor b = Some b'"
  shows "0 < int_from_bytes b \<and> b' = to_bytes (int_from_bytes b - 1) (length b)"
proof -
  from assms obtain ys where ys: "decrement_le (rev b) = Some ys" "b' = rev ys"
    by (auto simp: predecessor_def)
  from decrement_le_Some [OF ys(1)] ys(2)
  have l: "length b' = length b" and v: "Suc (int_from_bytes b') = int_from_bytes b" by simp_all
  have "b' = to_bytes (int_from_bytes b') (length b')" by (simp add: to_bytes_int_from_bytes)
  with l v show ?thesis by (metis diff_Suc_1 zero_less_Suc)
qed

lemma predecessor_largest_below:
  assumes "predecessor b = Some b'"
  shows "length b' = length b \<and> b' < b \<and> (\<forall>c. length c = length b \<and> c < b \<longrightarrow> c \<le> b')"
proof -
  from predecessor_Some [OF assms]
  have pos: "0 < int_from_bytes b" and b': "b' = to_bytes (int_from_bytes b - 1) (length b)"
    by simp_all
  have len: "length b' = length b" by (simp add: b' length_to_bytes)
  have fit: "int_from_bytes b - 1 < 256 ^ length b"
    using int_from_bytes_bound [of b] by simp
  then have val: "int_from_bytes b' = int_from_bytes b - 1"
    by (simp add: b' int_from_to_bytes)
  have less: "b' < b"
    by (rule int_less_lex_less [OF len]) (use val pos in simp)
  have "c \<le> b'" if c: "length c = length b" "c < b" for c
  proof (rule ccontr)
    assume "\<not> c \<le> b'"
    then have "b' < c" by simp
    from lex_less_int_less [OF _ this] lex_less_int_less [OF c] len c(1) val
    show False by simp
  qed
  with len less show ?thesis by blast
qed

section \<open>The loops of \<open>shift\<close>\<close>

text \<open>
  The outer loop of \<open>shift\<close> returns for every state: a pass that changes \<open>changes\<close>
  lowers the big-endian value of \<open>current\<close>. No candidate of \<open>shift\<close> has the wrong
  length, so it never raises.
\<close>

lemma shift_while_returns: "\<exists>res. shift_while p prev s = Some res"
proof (induction "int_from_bytes (current s)" arbitrary: s prev rule: less_induct)
  case less
  show ?case
  proof (cases "prev \<noteq> int (changes s)")
    case False
    then show ?thesis by (subst shift_while.simps) simp
  next
    case True
    obtain r s' where pass: "shift_pass p [0 ..< size_of s] s = (r, s')"
      by (cases "shift_pass p [0 ..< size_of s] s")
    have steps: "(probe_step p)\<^sup>*\<^sup>* s s'"
      using shift_pass_steps [of p s "[0 ..< size_of s]"] pass by simp
    show ?thesis
    proof (cases r)
      case (Inl e)
      with True pass show ?thesis by (subst shift_while.simps) simp
    next
      case (Inr u)
      have "\<exists>res. shift_while p (int (changes s)) s' = Some res"
      proof (cases "changes s' = changes s")
        case True
        then show ?thesis by (subst shift_while.simps) simp
      next
        case False
        with probe_steps_order [OF steps]
        have "current s' < current s" "length (current s') = length (current s)" by auto
        then have "int_from_bytes (current s') < int_from_bytes (current s)"
          by (simp add: lex_less_int_less)
        then show ?thesis by (rule less.hyps)
      qed
      with True pass Inr show ?thesis by (subst shift_while.simps) simp
    qed
  qed
qed

lemma shift_returns: "\<exists>res. shift p s = Some res"
  unfolding shift_def by (rule shift_while_returns)

lemma shift_byte_no_error:
  "length block = length (current s) \<Longrightarrow> fst (shift_byte p block i c k s) = Inr ()"
proof (induction k arbitrary: s)
  case 0
  show ?case by simp
next
  case (Suc k)
  let ?c = "block[i := drop_bit (Suc k) c]"
  from Suc.prems obtain b where b: "fst (incorporate p ?c s) = Inr b"
    using incorporate_no_error [of ?c s p] by auto
  obtain s' where s': "incorporate p ?c s = (Inr b, s')"
    using b by (cases "incorporate p ?c s") simp
  have "length (current s') = length (current s)"
    using incorporate_length [of p ?c s] s' by simp
  with Suc.prems Suc.IH [of s'] s' show ?case by (cases b) simp_all
qed

lemma shift_pass_no_error: "fst (shift_pass p is s) = Inr ()"
proof (induction "is" arbitrary: s)
  case Nil
  show ?case by simp
next
  case (Cons i "is")
  let ?m = "shift_byte p (current s) i (current s ! i) (bit_length (unat (current s ! i))) s"
  have "fst ?m = Inr ()" by (rule shift_byte_no_error) simp
  then obtain s' where "?m = (Inr (), s')" by (cases ?m) simp
  with Cons.IH [of s'] show ?case by (simp add: Let_def)
qed

lemma shift_while_no_error:
  assumes "shift_while p prev s = Some res"
  shows "fst res = Inr ()"
proof (rule shift_while.raw_induct [where P = "\<lambda>q prev s res. fst res = Inr ()", OF _ assms])
  fix sw :: "(buffer \<Rightarrow> bool) \<Rightarrow> int \<Rightarrow> state \<Rightarrow> ((error + unit) \<times> state) option"
  fix p prev s res
  assume IH: "\<And>q prev s res. sw q prev s = Some res \<Longrightarrow> fst res = Inr ()"
  assume body: "(if prev \<noteq> int (changes s)
      then case shift_pass p [0..<size_of s] s of
           (Inl e, s') \<Rightarrow> Some (Inl e, s')
           | (Inr u, s') \<Rightarrow> sw p (int (changes s)) s'
      else Some (Inr (), s)) = Some res"
  obtain s' where pass: "shift_pass p [0..<size_of s] s = (Inr (), s')"
    using shift_pass_no_error [of p "[0..<size_of s]" s]
    by (cases "shift_pass p [0..<size_of s] s") simp
  show "fst res = Inr ()"
  proof (cases "prev \<noteq> int (changes s)")
    case False
    with body show ?thesis by auto
  next
    case True
    with body pass have "sw p (int (changes s)) s' = Some res" by simp
    then show ?thesis by (rule IH)
  qed
qed

section \<open>Every sequence of operations returns\<close>

lemma and_then_returns:
  assumes "\<exists>t. r = Some t" and "\<And>t. \<exists>res. f t = Some res"
  shows "\<exists>res. and_then r f = Some res"
proof -
  from assms(1) obtain x s where "r = Some (x, s)" by auto
  with assms(2) [of s] show ?thesis by (cases x) (auto simp: and_then_def)
qed

lemma run_step_returns: "\<exists>res. run_step env p s = Some res"
  unfolding run_step_def by (intro and_then_returns shift_returns) simp_all

lemma apply_heuristic_returns: "\<exists>res. apply_heuristic env p h s = Some res"
proof (cases h)
  case Shift
  then show ?thesis by (simp only: apply_heuristic.simps shift_returns)
next
  case RunStep
  then show ?thesis by (simp only: apply_heuristic.simps run_step_returns)
qed (simp_all only: apply_heuristic.simps, (rule and_then_returns, blast, blast | blast)+)

lemma run_heuristics_returns: "\<exists>res. run_heuristics env p hs s = Some res"
proof (induction hs arbitrary: s)
  case Nil
  show ?case by simp
next
  case (Cons h hs)
  show ?case
    by (simp only: run_heuristics.simps) (intro and_then_returns apply_heuristic_returns Cons.IH)
qed

lemma and_then_assoc_run:
  "and_then (and_then r f) g = and_then r (\<lambda>s. and_then (f s) g)"
  by (auto simp: and_then_def split: option.split prod.split sum.split)

lemma run_heuristics_append:
  "run_heuristics env p (hs1 @ hs2) s
     = and_then (run_heuristics env p hs1 s) (run_heuristics env p hs2)"
proof (induction hs1 arbitrary: s)
  case Nil
  show ?case by (simp add: and_then_def)
next
  case (Cons h hs1)
  have "run_heuristics env p (hs1 @ hs2)
      = (\<lambda>s. and_then (run_heuristics env p hs1 s) (run_heuristics env p hs2))"
    by (rule ext) (rule Cons.IH)
  then show ?case by (simp add: and_then_assoc_run)
qed

section \<open>The fixpoint of the Integer shrinker in \<open>minimize_as_integer\<close>\<close>

text \<open>
  A candidate below the current value, refused by the acceptance function of
  \<open>minimize_as_integer\<close>, does not satisfy the predicate: its encoding is below \<open>current\<close>,
  so it was either evaluated now or is cached as failing.
\<close>

lemma minimize_accept_cases:
  assumes c: "c < current_int s" and sound: "cache_sound p s"
    and acc: "minimize_as_integer_accept p c s = (r, s')"
  shows "size_of s' = size_of s \<and> cache_sound p s'
    \<and> (r = Inr True \<and> current_int s' = c
        \<or> r = Inr False \<and> current s' = current s \<and> \<not> p (to_bytes c (size_of s)))"
proof -
  let ?n = "size_of s"
  let ?b = "to_bytes c ?n"
  have bound: "current_int s < 256 ^ ?n"
    unfolding current_int_def size_of_def by (rule int_from_bytes_bound)
  with c have fit: "c < 256 ^ ?n" by simp
  then have val: "int_from_bytes ?b = c" by (simp add: int_from_to_bytes)
  have len: "length ?b = length (current s)" by (simp add: length_to_bytes size_of_def)
  have less: "?b < current s"
    by (rule int_less_lex_less [OF len]) (use c val in \<open>simp add: current_int_def\<close>)
  from c fit acc have inc: "incorporate p ?b s = (r, s')"
    by (simp add: minimize_as_integer_accept_def incorporate_int_def int_to_bytes_def)
  from sound have fail: "(b, False) \<in> set (probeCache s) \<Longrightarrow> \<not> p b" for b
    by (auto simp: cache_sound_def list_all_iff)
  from less have ne: "?b \<noteq> current s" by auto
  show ?thesis
  proof (cases "cached_failing s ?b")
    case True
    with inc less len ne have "r = Inr False" "s' = s"
      by (auto simp: incorporate_def then_do_def check_invariants_def size_of_def
            left_is_better_def)
    with True sound fail show ?thesis by (auto simp: cached_failing_def)
  next
    case False
    with inc less len ne sound val show ?thesis
      by (cases "p ?b")
         (auto simp: incorporate_def then_do_def check_invariants_def size_of_def
            left_is_better_def cache_sound_def current_int_def length_to_bytes)
  qed
qed

lemma minimize_collab_fixpoint:
  assumes "meets_contract v rejected t" and "v = current_int s" and "cache_sound p s"
    and "\<forall>c \<in> set rejected. \<not> p (to_bytes c (size_of s))"
  shows "\<exists>s'. run_collab (minimize_as_integer_accept p) t s = (Inr (), s')
    \<and> size_of s' = size_of s
    \<and> (current_int s' = 0 \<or> \<not> p (to_bytes (current_int s' - 1) (size_of s')))"
  using assms
proof (induction t arbitrary: v rejected s)
  case Done
  then show ?case by auto
next
  case (Try c yes no)
  from Try.prems(1) have c: "c < v" and cy: "meets_contract c rejected yes"
    and cn: "meets_contract v (c # rejected) no" by simp_all
  obtain r s1 where acc: "minimize_as_integer_accept p c s = (r, s1)"
    by (cases "minimize_as_integer_accept p c s")
  from c Try.prems(2) have "c < current_int s" by simp
  from minimize_accept_cases [OF this Try.prems(3) acc]
  have sz: "size_of s1 = size_of s" and sound: "cache_sound p s1"
    and alt: "r = Inr True \<and> current_int s1 = c
        \<or> r = Inr False \<and> current s1 = current s \<and> \<not> p (to_bytes c (size_of s))"
    by simp_all
  from alt show ?case
  proof
    assume a: "r = Inr True \<and> current_int s1 = c"
    from Try.prems(4) sz have "\<forall>c \<in> set rejected. \<not> p (to_bytes c (size_of s1))" by simp
    from Try.IH(1) [OF cy _ sound this] a
    obtain s' where "run_collab (minimize_as_integer_accept p) yes s1 = (Inr (), s')"
      "size_of s' = size_of s1"
      "current_int s' = 0 \<or> \<not> p (to_bytes (current_int s' - 1) (size_of s'))" by auto
    with acc a sz show ?thesis by simp
  next
    assume a: "r = Inr False \<and> current s1 = current s \<and> \<not> p (to_bytes c (size_of s))"
    with Try.prems(4) sz have rej: "\<forall>c \<in> set (c # rejected). \<not> p (to_bytes c (size_of s1))"
      by simp
    from a Try.prems(2) have "v = current_int s1" by (simp add: current_int_def)
    from Try.IH(2) [OF cn this sound rej]
    obtain s' where "run_collab (minimize_as_integer_accept p) no s1 = (Inr (), s')"
      "size_of s' = size_of s1"
      "current_int s' = 0 \<or> \<not> p (to_bytes (current_int s' - 1) (size_of s'))" by auto
    with acc a sz show ?thesis by simp
  qed
qed

section \<open>The loops of \<open>rotate_suffixes\<close>\<close>

lemma enumerate_break_zeros:
  "list_all (\<lambda>b. b = 0) cs \<Longrightarrow>
   enumerate_break bound i cs = (if cs = [] then bound else Some (i + length cs - 1))"
  by (induction cs arbitrary: bound i) auto

lemma all_zero_last: "list_all (\<lambda>b. b = 0) cs \<Longrightarrow> cs \<noteq> [] \<Longrightarrow> cs ! (length cs - Suc 0) = (0::byte)"
  by (simp add: list_all_length)

lemma enumerate_break_nonzero:
  "\<not> list_all (\<lambda>x. x = 0) cs \<Longrightarrow>
   enumerate_break bound i cs = Some (i + length (takeWhile (\<lambda>x. x = 0) cs))"
  by (induction cs arbitrary: bound i) auto

lemma first_nonzero_nth:
  "\<not> list_all (\<lambda>x. x = 0) cs \<Longrightarrow> first_nonzero cs < length cs \<and> cs ! first_nonzero cs \<noteq> 0"
  unfolding first_nonzero_def by (induction cs) auto

lemma length_rotated_candidate:
  "sg + i \<le> length cur \<Longrightarrow> length (rotated_candidate sg i cur) = length cur"
  by (simp add: rotated_candidate_def)

lemma rotate_split_spec_length: "length (current (rotate_split_spec p sg s i)) = length (current s)"
  by (simp add: rotate_split_spec_def incorporate_length)

lemma rotate_loop_fold:
  assumes "\<forall>i \<in> set is. sg + i \<le> length (current s)"
  shows "rotate_loop p sg (replicate sg 0) is s = (Inr (), foldl (rotate_split_spec p sg) s is)"
  using assms
proof (induction "is" arbitrary: s)
  case Nil
  show ?case by simp
next
  case (Cons i "is")
  let ?rot = "rotated_candidate sg i (current s)"
  from Cons.prems have len: "length ?rot = length (current s)"
    by (simp add: length_rotated_candidate)
  have next_ok: "\<forall>j \<in> set is. sg + j \<le> length (current (rotate_split_spec p sg s i))"
    using Cons.prems by (simp add: rotate_split_spec_length)
  show ?case
  proof (cases "?rot < current s")
    case False
    with Cons.IH [OF next_ok] show ?thesis
      by (simp add: rotate_split_spec_def rotated_candidate_def Let_def)
  next
    case True
    from incorporate_no_error [OF len, of p] obtain b s' where inc: "incorporate p ?rot s = (Inr b, s')"
      by (cases "incorporate p ?rot s") auto
    with True have "rotate_split_spec p sg s i = s'" by (simp add: rotate_split_spec_def)
    with Cons.IH [OF next_ok] inc True show ?thesis
      by (simp add: rotated_candidate_def Let_def)
  qed
qed

lemma rotate_split_spec_steps: "(probe_step p)\<^sup>*\<^sup>* s (rotate_split_spec p sg s i)"
  by (simp add: rotate_split_spec_def incorporate_steps)

lemma foldl_rotate_split_spec_steps: "(probe_step p)\<^sup>*\<^sup>* s (foldl (rotate_split_spec p sg) s is)"
proof (induction "is" arbitrary: s)
  case Nil
  show ?case by simp
next
  case (Cons i "is")
  from rotate_split_spec_steps [of p s sg i] Cons.IH [of "rotate_split_spec p sg s i"] show ?case
    by (auto intro: rtranclp_trans)
qed

section \<open>Sorting gives the least permutation\<close>



section \<open>The special values of \<open>float_hack\<close>\<close>

lemma top_bit_byte: "(drop_bit 7 (c :: byte) = 0) = (\<not> bit c 7)"
proof -
  have "unat c < 256" using unsigned_less [of c, where ?'a = nat] by simp
  then have "unat c div 128 < 2" by simp
  moreover have "unat (drop_bit 7 c) = unat c div 128"
    by (simp only: unat_drop_bit_eq) (simp add: drop_bit_eq_div)
  ultimately have "unat (drop_bit 7 c) = 0 \<or> unat (drop_bit 7 c) = 1" by linarith
  then have "drop_bit 7 c = 0 \<or> drop_bit 7 c = 1"
    by (auto simp: word_unat_eq_iff)
  moreover have "bit c 7 = odd (drop_bit 7 c)" by (rule bit_iff_odd_drop_bit)
  ultimately show ?thesis by auto
qed

lemma special_step:
  assumes sz: "size_of s = 8"
  shows "\<exists>f' s'. special_probe_spec env p (f, s) g = (f', s') \<and> size_of s' = 8
     \<and> float_specials env p (g # gs) (current_int s) f s
         = float_specials env p gs (current_int s') f' s'"
proof (cases "float_to_lex env g < current_int s")
  case False
  with sz show ?thesis by (simp add: special_probe_spec_def Let_def)
next
  case True
  let ?j = "float_to_lex env g"
  have "current_int s < 256 ^ 8" using int_from_bytes_bound [of "current s"] sz
    by (simp add: current_int_def size_of_def)
  with True have fit: "?j < 256 ^ 8" by simp
  then have enc: "incorporate_int p ?j s = incorporate p (to_bytes ?j 8) s"
    using sz by (simp add: incorporate_int_def int_to_bytes_def)
  have len: "length (to_bytes ?j 8) = length (current s)"
    using sz by (simp add: length_to_bytes size_of_def)
  from incorporate_no_error [OF len, of p]
  obtain b s' where inc: "incorporate p (to_bytes ?j 8) s = (Inr b, s')"
    by (cases "incorporate p (to_bytes ?j 8) s") auto
  have sz': "size_of s' = 8"
    using incorporate_length [of p "to_bytes ?j 8" s] inc sz by (simp add: size_of_def)
  from incorporate_cases [OF inc]
  have cur: "(b \<longrightarrow> current s' = to_bytes ?j 8) \<and> (\<not> b \<longrightarrow> current s' = current s)"
    by auto
  show ?thesis
  proof (cases b)
    case True
    with cur fit have "current_int s' = ?j" by (simp add: current_int_def int_from_to_bytes)
    with True \<open>?j < current_int s\<close> inc enc sz' show ?thesis
      by (simp add: special_probe_spec_def Let_def)
  next
    case False
    with cur have "current_int s' = current_int s" by (simp add: current_int_def)
    with False \<open>?j < current_int s\<close> inc enc sz' show ?thesis
      by (simp add: special_probe_spec_def Let_def)
  qed
qed

lemma float_specials_fold:
  assumes "size_of s = 8"
  shows "\<exists>f' s'. foldl (special_probe_spec env p) (f, s) gs = (f', s') \<and> size_of s' = 8
     \<and> float_specials env p gs (current_int s) f s = (Inr (current_int s', f'), s')"
  using assms
proof (induction gs arbitrary: f s)
  case Nil
  then show ?case by simp
next
  case (Cons g gs)
  from special_step [OF Cons.prems, of env p f g gs]
  obtain f1 s1 where st: "special_probe_spec env p (f, s) g = (f1, s1)" "size_of s1 = 8"
    "float_specials env p (g # gs) (current_int s) f s
       = float_specials env p gs (current_int s1) f1 s1" by blast
  from Cons.IH [OF st(2), of f1] st(1,3) show ?case by simp
qed

section \<open>The candidates of \<open>short_circuit\<close> on a non-empty buffer\<close>

text \<open>
  On a non-empty buffer the candidates of the initial checks and of the binary search
  have the length of \<open>current\<close>, and neither loop raises.
\<close>

lemma short_circuit_initial_no_error:
  "current s \<noteq> [] \<Longrightarrow> \<exists>b. fst (short_circuit_initial p cs s) = Inr b"
proof (induction cs arbitrary: s)
  case Nil
  show ?case by auto
next
  case (Cons c cs)
  let ?c = "replicate (size_of s - 1) 0 @ [c]"
  from Cons.prems have len: "length ?c = length (current s)"
    by (cases "current s") (simp_all add: size_of_def)
  from consider_value_no_error [OF len, of p]
  obtain b s' where cv: "consider_value p ?c s = (Inr b, s')"
    by (cases "consider_value p ?c s") auto
  from consider_value_length [of p ?c s] cv Cons.prems have "current s' \<noteq> []" by auto
  from Cons.IH [OF this] cv show ?case by (cases b) auto
qed

lemma short_circuit_search_no_error:
  "0 \<le> lo \<Longrightarrow> hi \<le> int (size_of s) \<Longrightarrow> \<exists>r. fst (short_circuit_search p lo hi s) = Inr r"
proof (induction p lo hi s rule: short_circuit_search.induct)
  case (1 p lo hi s)
  show ?case
  proof (cases "lo + 1 < hi")
    case False
    then show ?thesis by simp
  next
    case True
    let ?mid = "(lo + hi) div 2"
    let ?c = "replicate (nat ?mid) 0 @ drop (nat ?mid) (current s)"
    from True "1.prems" have mid: "lo < ?mid" "?mid < hi" "0 \<le> ?mid" by auto
    with "1.prems" have "nat ?mid \<le> length (current s)" by (simp add: size_of_def)
    then have len: "length ?c = length (current s)" by simp
    from consider_value_no_error [OF len, of p]
    obtain b s' where cv: "consider_value p ?c s = (Inr b, s')"
      by (cases "consider_value p ?c s") auto
    from consider_value_length [of p ?c s] cv have sz: "size_of s' = size_of s"
      by (simp add: size_of_def)
    show ?thesis
    proof (cases b)
      case b: True
      have "\<exists>r. fst (short_circuit_search p ?mid hi s') = Inr r"
        using True cv b mid "1.prems" sz by (intro "1.IH"(1)) auto
      with True cv b show ?thesis
        by (simp add: Let_def del: short_circuit_search.simps
              add: short_circuit_search.simps [of p lo hi s])
    next
      case b: False
      have "\<exists>r. fst (short_circuit_search p lo ?mid s') = Inr r"
        using True cv b mid "1.prems" sz by (intro "1.IH"(2)) auto
      with True cv b show ?thesis
        by (simp add: Let_def del: short_circuit_search.simps
              add: short_circuit_search.simps [of p lo hi s])
    qed
  qed
qed

section \<open>Facts for the closed examples\<close>


lemmas probe_defs = incorporate_def then_do_def check_invariants_def size_of_def
  left_is_better_def cached_failing_def consider_value_def

section \<open>The claims\<close>

subsection \<open>C1: \<open>current\<close> stays valid and only ever decreases\<close>

text \<open>
  C1 (invariants I2 and I3). Take any predicate \<open>p\<close>, any collaborators, a state whose
  \<open>current\<close> satisfies \<open>p\<close>, and any sequence of operations (direct calls of the probe
  protocol and the heuristics of lexical.py), observed at two points: after a first part
  \<open>hs1\<close> and after the whole \<open>hs1 @ hs2\<close>. Both runs return. At both points
  \<open>current\<close> satisfies \<open>p\<close> and has the length it started with; and between the two
  points either \<open>changes\<close> and \<open>current\<close> are unchanged, or \<open>changes\<close> has grown and
  \<open>current\<close> is strictly smaller in the lexicographic order. So \<open>current\<close> is never
  replaced by an equal or a larger buffer, and its values over time strictly decrease.
  (A run in which an operation raises stops there, with the state of that moment.)
\<close>

theorem current_valid_and_decreasing:
  assumes "p (current s)"
  shows "\<exists>r1 s1 r2 s2.
      run_heuristics env p hs1 s = Some (r1, s1)
    \<and> run_heuristics env p (hs1 @ hs2) s = Some (r2, s2)
    \<and> p (current s1) \<and> p (current s2)
    \<and> length (current s1) = length (current s) \<and> length (current s2) = length (current s)
    \<and> (changes s2 = changes s1 \<and> current s2 = current s1
        \<or> changes s1 < changes s2 \<and> current s2 < current s1)"
proof -
  obtain res1 where res1: "run_heuristics env p hs1 s = Some res1"
    using run_heuristics_returns by blast
  obtain r1 s1 where rs1: "res1 = (r1, s1)" by (cases res1)
  from run_heuristics_steps [OF res1] rs1 have steps1: "(probe_step p)\<^sup>*\<^sup>* s s1" by simp
  have valid1: "p (current s1)" by (rule probe_steps_valid [OF steps1 assms])
  obtain res2 where res2: "run_heuristics env p hs2 s1 = Some res2"
    using run_heuristics_returns by blast
  obtain r2 s2 where rs2: "res2 = (r2, s2)" by (cases res2)
  from run_heuristics_steps [OF res2] rs2 have steps2: "(probe_step p)\<^sup>*\<^sup>* s1 s2" by simp
  show ?thesis
  proof (cases r1)
    case (Inl e)
    with res1 rs1 have "run_heuristics env p (hs1 @ hs2) s = Some (r1, s1)"
      by (simp add: run_heuristics_append and_then_def)
    with res1 rs1 valid1 probe_steps_order [OF steps1] show ?thesis by auto
  next
    case (Inr u)
    with res1 rs1 res2 rs2 have "run_heuristics env p (hs1 @ hs2) s = Some (r2, s2)"
      by (simp add: run_heuristics_append and_then_def)
    with res1 rs1 valid1 probe_steps_valid [OF steps2 valid1]
      probe_steps_order [OF steps1] probe_steps_order [OF steps2]
    show ?thesis by (auto simp: le_less)
  qed
qed

theorem current_valid_and_decreasing_witness:
  "mset (current \<lparr>current = [2, 0, 1], changes = 0, probeCache = [], full = False\<rparr>) = mset [0, 1, 2]
   \<and> run_heuristics example_collaborators (\<lambda>b. mset b = mset [0, 1, 2]) [Sort]
        \<lparr>current = [2, 0, 1], changes = 0, probeCache = [], full = False\<rparr>
      = Some (Inr (), \<lparr>current = [0, 1, 2], changes = 1, probeCache = [([0, 1, 2], True)],
                        full = False\<rparr>)
   \<and> (\<exists>r1 s1 r2 s2.
        run_heuristics example_collaborators (\<lambda>b. mset b = mset [0, 1, 2]) [Sort]
          \<lparr>current = [2, 0, 1], changes = 0, probeCache = [], full = False\<rparr> = Some (r1, s1)
      \<and> run_heuristics example_collaborators (\<lambda>b. mset b = mset [0, 1, 2]) ([Sort] @ [Shift, RunStep])
          \<lparr>current = [2, 0, 1], changes = 0, probeCache = [], full = False\<rparr> = Some (r2, s2)
      \<and> mset (current s1) = mset [0, 1, 2] \<and> mset (current s2) = mset [0, 1, 2]
      \<and> length (current s1)
          = length (current \<lparr>current = [2, 0, 1], changes = 0, probeCache = [], full = False\<rparr>)
      \<and> length (current s2)
          = length (current \<lparr>current = [2, 0, 1], changes = 0, probeCache = [], full = False\<rparr>)
      \<and> (changes s2 = changes s1 \<and> current s2 = current s1
          \<or> changes s1 < changes s2 \<and> current s2 < current s1))"
proof -
  let ?p = "\<lambda>b::buffer. mset b = mset [0, 1, 2]"
  let ?s = "\<lparr>current = [2, 0, 1], changes = 0, probeCache = [], full = False\<rparr>"
  have s: "sort [2, 0, 1 :: byte] = [0, 1, 2]" by code_simp
  have h: "?p (current ?s)" by simp
  have e: "run_heuristics example_collaborators ?p [Sort] ?s
      = Some (Inr (), \<lparr>current = [0, 1, 2], changes = 1, probeCache = [([0, 1, 2], True)],
                        full = False\<rparr>)"
    by (simp add: s sort_heuristic_def and_then_def probe_defs del: sort_key_simps)
  note c = current_valid_and_decreasing
    [of ?p ?s example_collaborators "[Sort]" "[Shift, RunStep]", OF h]
  show ?thesis by (intro conjI h e c)
qed

subsection \<open>C2: the length of the candidates\<close>

text \<open>
  C2, at the empty buffer. \<open>short_circuit\<close> builds its first candidate as
  \<open>hbytes([0] * (self.size - 1) + [c])\<close>, which for \<open>size = 0\<close> is one byte long: the
  candidate is one longer than \<open>current\<close>, and the length assertion of
  \<open>check_invariants\<close> fails. (On a non-empty buffer the candidates of both loops of
  \<open>short_circuit\<close> have the length of \<open>current\<close>: \<open>short_circuit_initial_no_error\<close>,
  \<open>short_circuit_search_no_error\<close>; and the length of \<open>current\<close> itself never changes:
  \<open>probe_steps_order\<close>.)
\<close>

theorem short_circuit_empty_buffer:
  "short_circuit env p \<lparr>current = [], changes = 0, probeCache = [], full = False\<rparr>
     = (Inl AssertionError, \<lparr>current = [], changes = 0, probeCache = [], full = False\<rparr>)
   \<and> length (replicate (size_of \<lparr>current = [], changes = 0, probeCache = [], full = False\<rparr> - 1)
         (0 :: byte) @ [0])
       = Suc (size_of \<lparr>current = [], changes = 0, probeCache = [], full = False\<rparr>)"
  by (simp add: short_circuit_def probe_defs)

subsection \<open>C3: the predecessor of the result is not a solution\<close>

text \<open>
  C3 (guarantee G1). Let the cache hold the predicate's own answers and let the Integer
  shrinker meet its contract. Then \<open>minimize_as_integer\<close> returns normally, and in the
  state it returns the lexicographic predecessor of \<open>current\<close> does not satisfy the
  predicate, or does not exist because \<open>current\<close> is all zero. In particular at a
  fixpoint, where the call leaves \<open>current\<close> as it was, the predecessor of \<open>current\<close>
  does not satisfy the predicate.
\<close>

theorem predecessor_not_a_solution:
  assumes "cache_sound p s"
    and "meets_contract (current_int s) [] (Integer_shrink env (current_int s) fl)"
  shows "\<exists>s'. minimize_as_integer env p fl s = (Inr (), s')
    \<and> (case predecessor (current s') of
          None \<Rightarrow> list_all (\<lambda>b. b = 0) (current s')
        | Some b \<Rightarrow> \<not> p b)
    \<and> (current s' = current s \<longrightarrow>
          (case predecessor (current s) of
             None \<Rightarrow> list_all (\<lambda>b. b = 0) (current s)
           | Some b \<Rightarrow> \<not> p b))"
proof -
  from minimize_collab_fixpoint [OF assms(2) refl assms(1)]
  obtain s' where run: "minimize_as_integer env p fl s = (Inr (), s')"
    and fp: "current_int s' = 0 \<or> \<not> p (to_bytes (current_int s' - 1) (size_of s'))"
    by (auto simp: minimize_as_integer_def)
  have post: "case predecessor (current s') of
          None \<Rightarrow> list_all (\<lambda>b. b = 0) (current s')
        | Some b \<Rightarrow> \<not> p b"
  proof (cases "predecessor (current s')")
    case None
    then show ?thesis by (simp add: predecessor_None)
  next
    case (Some b)
    from predecessor_Some [OF Some] fp show ?thesis
      by (simp add: Some current_int_def size_of_def)
  qed
  have "current s' = current s \<longrightarrow>
          (case predecessor (current s) of
             None \<Rightarrow> list_all (\<lambda>b. b = 0) (current s)
           | Some b \<Rightarrow> \<not> p b)"
  proof
    assume eq: "current s' = current s"
    from post show "case predecessor (current s) of
             None \<Rightarrow> list_all (\<lambda>b. b = 0) (current s)
           | Some b \<Rightarrow> \<not> p b"
      unfolding eq .
  qed
  with run post show ?thesis by blast
qed

theorem predecessor_not_a_solution_witness:
  "cache_sound (\<lambda>b. b \<noteq> [0]) \<lparr>current = [1], changes = 0, probeCache = [], full = False\<rparr>
   \<and> meets_contract (current_int \<lparr>current = [1], changes = 0, probeCache = [], full = False\<rparr>) []
        (Integer_shrink example_collaborators
           (current_int \<lparr>current = [1], changes = 0, probeCache = [], full = False\<rparr>) False)
   \<and> minimize_as_integer example_collaborators (\<lambda>b. b \<noteq> [0]) False
        \<lparr>current = [1], changes = 0, probeCache = [], full = False\<rparr>
      = (Inr (), \<lparr>current = [1], changes = 0, probeCache = [([0], False)], full = False\<rparr>)
   \<and> predecessor [1] = Some [0]
   \<and> (\<exists>s'. minimize_as_integer example_collaborators (\<lambda>b. b \<noteq> [0]) False
          \<lparr>current = [1], changes = 0, probeCache = [], full = False\<rparr> = (Inr (), s')
        \<and> current s' = current \<lparr>current = [1], changes = 0, probeCache = [], full = False\<rparr>
        \<and> (case predecessor (current \<lparr>current = [1], changes = 0, probeCache = [], full = False\<rparr>) of
              None \<Rightarrow> list_all (\<lambda>b. b = 0)
                        (current \<lparr>current = [1], changes = 0, probeCache = [], full = False\<rparr>)
            | Some b \<Rightarrow> \<not> b \<noteq> [0]))"
proof -
  let ?p = "\<lambda>b::buffer. b \<noteq> [0]"
  let ?s = "\<lparr>current = [1], changes = 0, probeCache = [], full = False\<rparr>"
  let ?t = "\<lparr>current = [1], changes = 0, probeCache = [([0], False)], full = False\<rparr>"
  have ci: "current_int ?s = Suc 0" by (simp add: current_int_def)
  have h1: "cache_sound ?p ?s" by (simp add: cache_sound_def)
  have h2: "meets_contract (current_int ?s) []
      (Integer_shrink example_collaborators (current_int ?s) False)"
    by (simp add: ci example_collaborators_def)
  have e: "minimize_as_integer example_collaborators ?p False ?s = (Inr (), ?t)"
    by (simp add: example_collaborators_def minimize_as_integer_def
          minimize_as_integer_accept_def incorporate_int_def int_to_bytes_def probe_defs
          current_int_def)
  have pr: "predecessor [1] = Some [0]" by (simp add: predecessor_def)
  from predecessor_not_a_solution [OF h1 h2] e
  have c: "\<exists>s'. minimize_as_integer example_collaborators ?p False ?s = (Inr (), s')
        \<and> current s' = current ?s
        \<and> (case predecessor (current ?s) of
              None \<Rightarrow> list_all (\<lambda>b. b = 0) (current ?s)
            | Some b \<Rightarrow> \<not> b \<noteq> [0])"
    by auto
  show ?thesis by (intro conjI h1 h2 e pr c)
qed

subsection \<open>C4: \<open>sort\<close> and \<open>partial_sort\<close> probe through \<open>consider\<close>\<close>



subsection \<open>C5: \<open>rotate_suffixes\<close> on an all-zero buffer\<close>

text \<open>
  C5 as stated fails: on the all-zero buffer of length 2 \<open>rotate_suffixes\<close> does not
  return normally, it raises AssertionError.
\<close>

theorem rotate_suffixes_all_zero_raises:
  "fst (rotate_suffixes (\<lambda>b. True) \<lparr>current = [0, 0], changes = 0, probeCache = [], full = False\<rparr>)
     = Inl AssertionError"
  by (simp add: rotate_suffixes_def)

text \<open>
  C5, as amended. On a non-empty buffer with no nonzero byte \<open>rotate_suffixes\<close>
  evaluates the predicate on nothing and leaves the state as it is, but it does not
  return normally: the loop leaves \<open>significant\<close> at the last index, and
  \<open>assert self.current[significant]\<close> fails with AssertionError.
\<close>

theorem rotate_suffixes_all_zero:
  assumes "current s \<noteq> []" and "list_all (\<lambda>b. b = 0) (current s)"
  shows "rotate_suffixes p s = (Inl AssertionError, s)"
  using assms
  by (simp add: rotate_suffixes_def enumerate_break_zeros all_zero_last size_of_def)

theorem rotate_suffixes_all_zero_witness:
  "current \<lparr>current = [0, 0, 0], changes = 0, probeCache = [], full = False\<rparr> \<noteq> []
   \<and> list_all (\<lambda>b. b = 0) (current \<lparr>current = [0, 0, 0], changes = 0, probeCache = [], full = False\<rparr>)
   \<and> rotate_suffixes (\<lambda>b. True) \<lparr>current = [0, 0, 0], changes = 0, probeCache = [], full = False\<rparr>
       = (Inl AssertionError, \<lparr>current = [0, 0, 0], changes = 0, probeCache = [], full = False\<rparr>)"
  using rotate_suffixes_all_zero
    [of "\<lparr>current = [0, 0, 0], changes = 0, probeCache = [], full = False\<rparr>" "\<lambda>b. True"]
  by simp

subsection \<open>C6: Scenario E\<close>



subsection \<open>C7: the probes of \<open>float_hack\<close>\<close>

text \<open>
  C7. Unless the buffer has 8 bytes and the top bit of its first byte is set,
  \<open>float_hack\<close> returns with the state as it is. When it applies and \<open>is_simple\<close>
  fails, its loop over NaN, +Infinity and the maximum finite double is the spec's phase:
  the three values in that order, each probed only if its lexical code is below the
  buffer's current big-endian integer value, which is also the value of the loop's
  local \<open>i\<close> at the end; and when the float tracked after that phase is infinite or
  NaN, \<open>float_hack\<close> returns with the state the phase left.
\<close>

theorem float_hack_probes:
  "(\<not> (size_of s = 8 \<and> bit (hd (current s)) 7) \<longrightarrow> float_hack env p s = (Inr (), s))
   \<and> (size_of s = 8 \<and> bit (hd (current s)) 7
        \<and> \<not> is_simple env (lex_to_float env (current_int s))
      \<longrightarrow> (\<exists>f1 s1. special_phase_spec env p s = (f1, s1)
            \<and> float_specials env p [float_nan env, float_inf env, float_max env]
                 (current_int s) (lex_to_float env (current_int s)) s
               = (Inr (current_int s1, f1), s1)
            \<and> (isinf env f1 \<or> isnan env f1 \<longrightarrow> float_hack env p s = (Inr (), s1))))"
proof (intro conjI impI)
  assume a: "\<not> (size_of s = 8 \<and> bit (hd (current s)) 7)"
  show "float_hack env p s = (Inr (), s)"
  proof (cases "size_of s = 8")
    case False
    then show ?thesis by (simp add: float_hack_def)
  next
    case True
    then have "current s \<noteq> []" by (auto simp: size_of_def)
    then have "current s ! 0 = hd (current s)" by (simp add: hd_conv_nth)
    with a True show ?thesis by (simp add: float_hack_def top_bit_byte)
  qed
next
  assume a: "size_of s = 8 \<and> bit (hd (current s)) 7
        \<and> \<not> is_simple env (lex_to_float env (current_int s))"
  then have "current s \<noteq> []" by (auto simp: size_of_def)
  then have hd: "current s ! 0 = hd (current s)" by (simp add: hd_conv_nth)
  from a float_specials_fold [of s env p "lex_to_float env (current_int s)"
      "[float_nan env, float_inf env, float_max env]"]
  obtain f1 s1 where ph: "special_phase_spec env p s = (f1, s1)"
    "float_specials env p [float_nan env, float_inf env, float_max env]
       (current_int s) (lex_to_float env (current_int s)) s = (Inr (current_int s1, f1), s1)"
    unfolding special_phase_spec_def by blast
  have "isinf env f1 \<or> isnan env f1 \<longrightarrow> float_hack env p s = (Inr (), s1)"
    using a hd ph(2) by (simp add: float_hack_def top_bit_byte Let_def del: float_specials.simps)
  with ph show "\<exists>f1 s1. special_phase_spec env p s = (f1, s1)
            \<and> float_specials env p [float_nan env, float_inf env, float_max env]
                 (current_int s) (lex_to_float env (current_int s)) s
               = (Inr (current_int s1, f1), s1)
            \<and> (isinf env f1 \<or> isnan env f1 \<longrightarrow> float_hack env p s = (Inr (), s1))"
    by blast
qed

theorem float_hack_probes_witness:
  "\<not> (size_of \<lparr>current = [200], changes = 0, probeCache = [], full = False\<rparr> = 8
        \<and> bit (hd (current \<lparr>current = [200], changes = 0, probeCache = [], full = False\<rparr>)) 7)
   \<and> float_hack example_collaborators (\<lambda>b. True)
        \<lparr>current = [200], changes = 0, probeCache = [], full = False\<rparr>
      = (Inr (), \<lparr>current = [200], changes = 0, probeCache = [], full = False\<rparr>)
   \<and> size_of \<lparr>current = [128, 0, 0, 0, 0, 0, 0, 0], changes = 0, probeCache = [], full = False\<rparr> = 8
   \<and> bit (hd (current \<lparr>current = [128, 0, 0, 0, 0, 0, 0, 0], changes = 0, probeCache = [],
                          full = False\<rparr>)) 7
   \<and> \<not> is_simple example_collaborators (lex_to_float example_collaborators
          (current_int \<lparr>current = [128, 0, 0, 0, 0, 0, 0, 0], changes = 0, probeCache = [],
                         full = False\<rparr>))
   \<and> (\<exists>f1 s1. special_phase_spec example_collaborators (\<lambda>b. True)
          \<lparr>current = [128, 0, 0, 0, 0, 0, 0, 0], changes = 0, probeCache = [], full = False\<rparr>
          = (f1, s1)
        \<and> (isinf example_collaborators f1 \<or> isnan example_collaborators f1)
        \<and> float_hack example_collaborators (\<lambda>b. True)
          \<lparr>current = [128, 0, 0, 0, 0, 0, 0, 0], changes = 0, probeCache = [], full = False\<rparr>
          = (Inr (), s1))"
proof -
  let ?p = "\<lambda>b::buffer. True"
  let ?a = "\<lparr>current = [200], changes = 0, probeCache = [], full = False\<rparr>"
  let ?b = "\<lparr>current = [128, 0, 0, 0, 0, 0, 0, 0], changes = 0, probeCache = [], full = False\<rparr>"
  let ?e = "example_collaborators"
  have h1: "\<not> (size_of ?a = 8 \<and> bit (hd (current ?a)) 7)" by (simp add: size_of_def)
  have h2: "size_of ?b = 8" by (simp add: size_of_def)
  have h3: "bit (hd (current ?b)) 7" by simp
  have h4: "\<not> is_simple ?e (lex_to_float ?e (current_int ?b))"
    by (simp add: example_collaborators_def)
  from float_hack_probes [of ?a ?e ?p] h1
  have c1: "float_hack ?e ?p ?a = (Inr (), ?a)" by blast
  from float_hack_probes [of ?b ?e ?p] h2 h3 h4
  obtain f1 s1 where ph: "special_phase_spec ?e ?p ?b = (f1, s1)"
    and stop: "isinf ?e f1 \<or> isnan ?e f1 \<longrightarrow> float_hack ?e ?p ?b = (Inr (), s1)"
    by blast
  let ?c = "\<lparr>current = [0, 0, 0, 0, 0, 0, 0, 5], changes = Suc 0,
               probeCache = [([0, 0, 0, 0, 0, 0, 0, 5], True)], full = False\<rparr>"
  have env: "float_to_lex ?e = (\<lambda>f. f)" "lex_to_float ?e = (\<lambda>i. i)"
    "float_nan ?e = 5" "float_inf ?e = 6" "float_max ?e = 7"
    by (simp_all add: example_collaborators_def)
  have cb: "current_int ?b = 9223372036854775808" by (simp add: current_int_def)
  have cc: "current_int ?c = 5" by (simp add: current_int_def)
  have tb: "to_bytes 5 8 = [0, 0, 0, 0, 0, 0, 0, 5]" by code_simp
  have inc: "incorporate ?p [0, 0, 0, 0, 0, 0, 0, 5] ?b = (Inr True, ?c)"
    by (simp add: probe_defs)
  have st1: "special_probe_spec ?e ?p (9223372036854775808, ?b) 5 = (5, ?c)"
    by (simp add: special_probe_spec_def env cb tb inc)
  have st2: "special_probe_spec ?e ?p (5, ?c) 6 = (5, ?c)"
    by (simp add: special_probe_spec_def env cc)
  have st3: "special_probe_spec ?e ?p (5, ?c) 7 = (5, ?c)"
    by (simp add: special_probe_spec_def env cc)
  have "special_phase_spec ?e ?p ?b = (5, ?c)"
    by (simp add: special_phase_spec_def env cb st1 st2 st3)
  with ph have "f1 = 5" by simp
  then have "isinf ?e f1 \<or> isnan ?e f1" by (simp add: example_collaborators_def)
  with ph stop have c2: "\<exists>f1 s1. special_phase_spec ?e ?p ?b = (f1, s1)
        \<and> (isinf ?e f1 \<or> isnan ?e f1) \<and> float_hack ?e ?p ?b = (Inr (), s1)" by blast
  show ?thesis by (intro conjI h1 c1 h2 h3 h4 c2)
qed

subsection \<open>C8: the probes of \<open>rotate_suffixes\<close>\<close>

text \<open>
  C8. On a buffer with a nonzero byte, \<open>rotate_suffixes\<close> returns normally and the state
  it returns is the one the spec describes: with \<open>significant\<close> the index of the first
  nonzero byte, for each split point \<open>i\<close> from 1 to \<open>length - significant - 1\<close> in turn,
  the candidate \<open>prefix ++ right ++ left\<close> of the \<open>current\<close> of that moment is handed to
  the probe protocol only if it is smaller than that \<open>current\<close>. Every buffer on which the
  predicate is evaluated on the way has the length of \<open>current\<close> and is strictly smaller
  than the \<open>current\<close> at the start.
\<close>

theorem rotate_suffixes_probes:
  assumes "\<not> list_all (\<lambda>x. x = 0) (current s)"
  shows "\<exists>s' new. rotate_suffixes p s = (Inr (), s')
    \<and> s' = rotate_suffixes_spec p s
    \<and> probeCache s' = new @ probeCache s
    \<and> list_all (\<lambda>(b, r). b < current s \<and> length b = length (current s)) new"
proof -
  let ?sg = "first_nonzero (current s)"
  from first_nonzero_nth [OF assms]
  have sg: "?sg < length (current s)" "current s ! ?sg \<noteq> 0" by simp_all
  have "\<forall>i \<in> set [1 ..< length (current s) - ?sg]. ?sg + i \<le> length (current s)" by auto
  from rotate_loop_fold [OF this, of p] sg enumerate_break_nonzero [OF assms, of None 0]
  have run: "rotate_suffixes p s = (Inr (), rotate_suffixes_spec p s)"
    by (simp add: rotate_suffixes_def rotate_suffixes_spec_def first_nonzero_def size_of_def)
  have "(probe_step p)\<^sup>*\<^sup>* s (rotate_suffixes_spec p s)"
    unfolding rotate_suffixes_spec_def by (rule foldl_rotate_split_spec_steps)
  from probe_steps_new_entries [OF this]
  obtain new where "probeCache (rotate_suffixes_spec p s) = new @ probeCache s"
    "list_all (\<lambda>(b, r). b < current s \<and> length b = length (current s)) new"
    by (auto simp: list_all_iff)
  with run show ?thesis by blast
qed

theorem rotate_suffixes_probes_witness:
  "\<not> list_all (\<lambda>x. x = 0) (current \<lparr>current = [0, 3, 1, 2], changes = 0, probeCache = [], full = False\<rparr>)
   \<and> rotate_suffixes (\<lambda>b. True) \<lparr>current = [0, 3, 1, 2], changes = 0, probeCache = [], full = False\<rparr>
      = (Inr (), \<lparr>current = [0, 1, 2, 3], changes = 1, probeCache = [([0, 1, 2, 3], True)],
                   full = False\<rparr>)
   \<and> (\<exists>s' new.
        rotate_suffixes (\<lambda>b. True) \<lparr>current = [0, 3, 1, 2], changes = 0, probeCache = [], full = False\<rparr>
          = (Inr (), s')
        \<and> s' = rotate_suffixes_spec (\<lambda>b. True)
                   \<lparr>current = [0, 3, 1, 2], changes = 0, probeCache = [], full = False\<rparr>
        \<and> probeCache s'
            = new @ probeCache \<lparr>current = [0, 3, 1, 2], changes = 0, probeCache = [], full = False\<rparr>
        \<and> list_all (\<lambda>(b, r). b < current \<lparr>current = [0, 3, 1, 2], changes = 0, probeCache = [], full = False\<rparr>
              \<and> length b = length (current \<lparr>current = [0, 3, 1, 2], changes = 0, probeCache = [], full = False\<rparr>))
            new)"
proof -
  let ?p = "\<lambda>b::buffer. True"
  let ?s = "\<lparr>current = [0, 3, 1, 2], changes = 0, probeCache = [], full = False\<rparr>"
  have h: "\<not> list_all (\<lambda>x. x = 0) (current ?s)" by simp
  have u: "[1 ..< 3] = [1, 2]" by (simp add: upt_rec)
  have e: "rotate_suffixes ?p ?s
      = (Inr (), \<lparr>current = [0, 1, 2, 3], changes = 1, probeCache = [([0, 1, 2, 3], True)],
                   full = False\<rparr>)"
    by (simp add: rotate_suffixes_def u Let_def probe_defs)
  note c = rotate_suffixes_probes [OF h, of ?p]
  show ?thesis by (intro conjI h e c)
qed

subsection \<open>C9: a rejected buffer is never submitted again\<close>

text \<open>
  C9. For a candidate of the right length that equals \<open>current\<close>, is not strictly
  smaller than \<open>current\<close> or is cached as failing, \<open>incorporate\<close> reports False and leaves
  the state, the cache included, as it is: the predicate is not invoked. For a candidate
  of the right length that is strictly smaller and not cached as failing, the predicate is
  invoked once: the result is its answer, the cache gains exactly the entry of the
  candidate with that answer, and a refused candidate is cached as failing from then on,
  with \<open>current\<close> as it was. Over every sequence of operations the sequence returns; the
  cache has only grown at its head; every entry added records the predicate's answer for
  a buffer that was not cached as failing at the start; a buffer cached as failing stays
  so; and a cache without resubmission (the empty cache of a new object is one) stays
  without resubmission: no entry is ever added for a buffer that an older entry records
  as failing.
\<close>

theorem rejected_never_resubmitted:
  "(length c = length (current s)
      \<and> (c = current s \<or> \<not> c < current s \<or> cached_failing s c)
      \<longrightarrow> incorporate p c s = (Inr False, s))
   \<and> (length c = length (current s) \<and> c < current s \<and> \<not> cached_failing s c
      \<longrightarrow> fst (incorporate p c s) = Inr (p c)
          \<and> probeCache (snd (incorporate p c s)) = (c, p c) # probeCache s
          \<and> (\<not> p c \<longrightarrow> cached_failing (snd (incorporate p c s)) c
                \<and> current (snd (incorporate p c s)) = current s))
   \<and> (\<exists>r s' new. run_heuristics env p hs s = Some (r, s')
          \<and> probeCache s' = new @ probeCache s
          \<and> list_all (\<lambda>(b, r). r = p b \<and> \<not> cached_failing s b) new
          \<and> (cached_failing s c \<longrightarrow> cached_failing s' c)
          \<and> (no_resubmission (probeCache s) \<longrightarrow> no_resubmission (probeCache s')))"
proof (intro conjI)
  show "length c = length (current s)
      \<and> (c = current s \<or> \<not> c < current s \<or> cached_failing s c)
      \<longrightarrow> incorporate p c s = (Inr False, s)"
    by (auto simp: incorporate_def then_do_def check_invariants_def size_of_def left_is_better_def)
next
  show "length c = length (current s) \<and> c < current s \<and> \<not> cached_failing s c
      \<longrightarrow> fst (incorporate p c s) = Inr (p c)
          \<and> probeCache (snd (incorporate p c s)) = (c, p c) # probeCache s
          \<and> (\<not> p c \<longrightarrow> cached_failing (snd (incorporate p c s)) c
                \<and> current (snd (incorporate p c s)) = current s)"
    by (auto simp: incorporate_def then_do_def check_invariants_def size_of_def left_is_better_def
          cached_failing_def)
next
  obtain res where res: "run_heuristics env p hs s = Some res"
    using run_heuristics_returns by blast
  obtain r s' where rs: "res = (r, s')" by (cases res)
  from run_heuristics_steps [OF res] rs have steps: "(probe_step p)\<^sup>*\<^sup>* s s'" by simp
  from probe_steps_log [OF steps] obtain new where new: "probeCache s' = new @ probeCache s"
    "list_all (\<lambda>(b, r). r = p b \<and> \<not> cached_failing s b) new" by blast
  from new(1) have keep: "cached_failing s c \<longrightarrow> cached_failing s' c"
    by (simp add: cached_failing_def)
  from probe_steps_cache [OF steps]
  have nr: "no_resubmission (probeCache s) \<longrightarrow> no_resubmission (probeCache s')" by simp
  from res rs new keep nr
  show "\<exists>r s' new. run_heuristics env p hs s = Some (r, s')
          \<and> probeCache s' = new @ probeCache s
          \<and> list_all (\<lambda>(b, r). r = p b \<and> \<not> cached_failing s b) new
          \<and> (cached_failing s c \<longrightarrow> cached_failing s' c)
          \<and> (no_resubmission (probeCache s) \<longrightarrow> no_resubmission (probeCache s'))"
    by blast
qed

theorem rejected_never_resubmitted_witness:
  "length [0 :: byte] = length (current \<lparr>current = [1], changes = 0, probeCache = [], full = False\<rparr>)
   \<and> [0] < current \<lparr>current = [1], changes = 0, probeCache = [], full = False\<rparr>
   \<and> \<not> cached_failing \<lparr>current = [1], changes = 0, probeCache = [], full = False\<rparr> [0]
   \<and> \<not> [0] = [1 :: byte]
   \<and> incorporate (\<lambda>b. b = [1]) [0] \<lparr>current = [1], changes = 0, probeCache = [], full = False\<rparr>
      = (Inr False, \<lparr>current = [1], changes = 0, probeCache = [([0], False)], full = False\<rparr>)
   \<and> cached_failing (snd (incorporate (\<lambda>b. b = [1]) [0]
        \<lparr>current = [1], changes = 0, probeCache = [], full = False\<rparr>)) [0]
   \<and> no_resubmission (probeCache \<lparr>current = [1], changes = 0, probeCache = [([0], False)], full = False\<rparr>)
   \<and> length [0 :: byte] = length (current \<lparr>current = [1], changes = 0, probeCache = [([0], False)], full = False\<rparr>)
   \<and> cached_failing \<lparr>current = [1], changes = 0, probeCache = [([0], False)], full = False\<rparr> [0]
   \<and> incorporate (\<lambda>b. b = [1]) [0]
        \<lparr>current = [1], changes = 0, probeCache = [([0], False)], full = False\<rparr>
      = (Inr False, \<lparr>current = [1], changes = 0, probeCache = [([0], False)], full = False\<rparr>)
   \<and> (\<exists>r s' new. run_heuristics example_collaborators (\<lambda>b. b = [1]) [Incorporate [0], Shift]
        \<lparr>current = [1], changes = 0, probeCache = [([0], False)], full = False\<rparr> = Some (r, s')
        \<and> probeCache s' = new @ probeCache \<lparr>current = [1], changes = 0, probeCache = [([0], False)], full = False\<rparr>
        \<and> list_all (\<lambda>(b, r). r = (b = [1])
              \<and> \<not> cached_failing \<lparr>current = [1], changes = 0, probeCache = [([0], False)], full = False\<rparr> b) new
        \<and> cached_failing s' [0]
        \<and> no_resubmission (probeCache s'))"
proof -
  let ?p = "\<lambda>b::buffer. b = [1]"
  let ?a = "\<lparr>current = [1], changes = 0, probeCache = [], full = False\<rparr>"
  let ?s = "\<lparr>current = [1], changes = 0, probeCache = [([0], False)], full = False\<rparr>"
  have a1: "length [0 :: byte] = length (current ?a)" by simp
  have a2: "[0] < current ?a" by simp
  have a3: "\<not> cached_failing ?a [0]" by (simp add: cached_failing_def)
  have a4: "\<not> [0] = [1 :: byte]" by simp
  have a5: "incorporate ?p [0] ?a = (Inr False, ?s)" by (simp add: probe_defs)
  from rejected_never_resubmitted [of "[0]" ?a ?p example_collaborators "[]"] a1 a2 a3 a4
  have a6: "cached_failing (snd (incorporate ?p [0] ?a)) [0]" by blast
  have h1: "no_resubmission (probeCache ?s)" by simp
  have h2: "length [0 :: byte] = length (current ?s)" by simp
  have h3: "cached_failing ?s [0]" by (simp add: cached_failing_def)
  from rejected_never_resubmitted [of "[0]" ?s ?p example_collaborators "[Incorporate [0], Shift]"]
    h1 h2 h3
  have b1: "incorporate ?p [0] ?s = (Inr False, ?s)"
    and b2: "\<exists>r s' new. run_heuristics example_collaborators ?p [Incorporate [0], Shift] ?s = Some (r, s')
        \<and> probeCache s' = new @ probeCache ?s
        \<and> list_all (\<lambda>(b, r). r = (b = [1]) \<and> \<not> cached_failing ?s b) new
        \<and> cached_failing s' [0]
        \<and> no_resubmission (probeCache s')"
    by blast+
  show ?thesis by (intro conjI a1 a2 a3 a4 a5 a6 h1 h2 h3 b1 b2)
qed

subsection \<open>C10: \<open>shift\<close> terminates\<close>

text \<open>
  C10. For every predicate and every state, \<open>shift\<close> returns (the result is not
  \<open>None\<close>, the value of a loop that never exits), and it returns normally. The outer
  loop exits after the first pass that accepts no probe: a pass entered with
  \<open>prev \<noteq> changes\<close> that leaves \<open>changes\<close> as it was is the last one. A pass that
  accepts a probe leaves \<open>current\<close> strictly smaller, at the same length, and the loop
  goes on from there; the buffers of one length are well-ordered, which is what bounds
  the number of passes.
\<close>

theorem shift_terminates:
  "(\<exists>s'. shift p s = Some (Inr (), s'))
   \<and> (prev \<noteq> int (changes t) \<and> shift_pass p [0 ..< size_of t] t = (r, t')
        \<and> changes t' = changes t \<longrightarrow> shift_while p prev t = Some (r, t'))
   \<and> (prev \<noteq> int (changes t) \<and> shift_pass p [0 ..< size_of t] t = (r, t')
        \<and> changes t' \<noteq> changes t
      \<longrightarrow> current t' < current t \<and> length (current t') = length (current t)
          \<and> shift_while p prev t = shift_while p (int (changes t)) t')"
proof (intro conjI impI)
  obtain res where res: "shift p s = Some res" using shift_returns by blast
  then have "fst res = Inr ()" unfolding shift_def by (rule shift_while_no_error)
  with res show "\<exists>s'. shift p s = Some (Inr (), s')" by (cases res) auto
next
  assume a: "prev \<noteq> int (changes t) \<and> shift_pass p [0 ..< size_of t] t = (r, t')
        \<and> changes t' = changes t"
  then have "r = Inr ()" using shift_pass_no_error [of p "[0 ..< size_of t]" t] by simp
  moreover have "shift_while p (int (changes t)) t' = Some (Inr (), t')"
    using a by (subst shift_while.simps) simp
  ultimately show "shift_while p prev t = Some (r, t')"
    using a by (subst shift_while.simps) simp
next
  assume a: "prev \<noteq> int (changes t) \<and> shift_pass p [0 ..< size_of t] t = (r, t')
        \<and> changes t' \<noteq> changes t"
  then have steps: "(probe_step p)\<^sup>*\<^sup>* t t'"
    using shift_pass_steps [of p t "[0 ..< size_of t]"] by simp
  from probe_steps_order [OF steps] a
  show "current t' < current t" and "length (current t') = length (current t)" by auto
  from a have "r = Inr ()" using shift_pass_no_error [of p "[0 ..< size_of t]" t] by simp
  with a show "shift_while p prev t = shift_while p (int (changes t)) t'"
    by (subst shift_while.simps) simp
qed

theorem shift_terminates_witness:
  "(\<exists>s'. shift (\<lambda>b. b = [1]) \<lparr>current = [1], changes = 0, probeCache = [], full = False\<rparr>
            = Some (Inr (), s'))
   \<and> - 1 \<noteq> int (changes \<lparr>current = [1], changes = 0, probeCache = [], full = False\<rparr>)
   \<and> shift_pass (\<lambda>b. b = [1]) [0 ..< 1] \<lparr>current = [1], changes = 0, probeCache = [], full = False\<rparr>
       = (Inr (), \<lparr>current = [1], changes = 0, probeCache = [([0], False)], full = False\<rparr>)
   \<and> shift_while (\<lambda>b. b = [1]) (- 1) \<lparr>current = [1], changes = 0, probeCache = [], full = False\<rparr>
       = Some (Inr (), \<lparr>current = [1], changes = 0, probeCache = [([0], False)], full = False\<rparr>)
   \<and> shift_pass (\<lambda>b. True) [0 ..< 1] \<lparr>current = [1], changes = 0, probeCache = [], full = False\<rparr>
       = (Inr (), \<lparr>current = [0], changes = 1, probeCache = [([0], True)], full = False\<rparr>)
   \<and> [0] < [1 :: byte]
   \<and> shift_while (\<lambda>b. True) (- 1) \<lparr>current = [1], changes = 0, probeCache = [], full = False\<rparr>
       = shift_while (\<lambda>b. True) 0
           \<lparr>current = [0], changes = 1, probeCache = [([0], True)], full = False\<rparr>"
proof -
  let ?p = "\<lambda>b::buffer. b = [1]"
  let ?q = "\<lambda>b::buffer. True"
  let ?s = "\<lparr>current = [1], changes = 0, probeCache = [], full = False\<rparr>"
  let ?t = "\<lparr>current = [1], changes = 0, probeCache = [([0], False)], full = False\<rparr>"
  let ?u = "\<lparr>current = [0], changes = 1, probeCache = [([0], True)], full = False\<rparr>"
  have bl: "bit_length (Suc 0) = Suc 0" by (simp add: bit_length.simps)
  have pass: "shift_pass ?p [0 ..< 1] ?s = (Inr (), ?t)"
    by (simp add: bl Let_def probe_defs)
  have pass': "shift_pass ?q [0 ..< 1] ?s = (Inr (), ?u)"
    by (simp add: bl Let_def probe_defs)
  have sz: "size_of ?s = 1" by (simp add: size_of_def)
  from shift_terminates [of ?p ?s "- 1" ?s "Inr ()" ?t] pass sz
  have a: "(\<exists>s'. shift ?p ?s = Some (Inr (), s'))"
    and b: "shift_while ?p (- 1) ?s = Some (Inr (), ?t)" by simp_all
  from shift_terminates [of ?q ?s "- 1" ?s "Inr ()" ?u] pass' sz
  have c: "shift_while ?q (- 1) ?s = shift_while ?q 0 ?u" by simp
  have d: "- 1 \<noteq> int (changes ?s)" by simp
  have e: "[0] < [1 :: byte]" by simp
  show ?thesis by (intro conjI a d pass b pass' e c)
qed


end
